theory Spec2Isabelle
  imports Main "HOL-Library.AList"
begin

section \<open>Host strings\<close>

text \<open>
  A Python string is modelled as a \<^typ>\<open>string\<close>, each \<^typ>\<open>char\<close> standing for
  the code point of the same number (the first 256 code points). The three character
  classes below are the ones the engine relies on through \<^verbatim>\<open>str.strip\<close>,
  \<^verbatim>\<open>str.split\<close> and the patterns \<^verbatim>\<open>\s\<close> and \<^verbatim>\<open>\w\<close> of the two
  regular expressions, restricted to that range.
\<close>

definition code_point :: "char \<Rightarrow> nat" where
  "code_point c = of_char c"

definition is_space :: "char \<Rightarrow> bool" where
  "is_space c = (let n = code_point c in
     (9 \<le> n \<and> n \<le> 13) \<or> (28 \<le> n \<and> n \<le> 32) \<or> n = 133 \<or> n = 160)"

definition is_word :: "char \<Rightarrow> bool" where
  "is_word c = (let n = code_point c in
     (48 \<le> n \<and> n \<le> 57) \<or> (65 \<le> n \<and> n \<le> 90) \<or> n = 95 \<or> (97 \<le> n \<and> n \<le> 122) \<or>
     n = 170 \<or> n = 178 \<or> n = 179 \<or> n = 181 \<or> n = 185 \<or> n = 186 \<or>
     (188 \<le> n \<and> n \<le> 190) \<or> (192 \<le> n \<and> n \<le> 214) \<or> (216 \<le> n \<and> n \<le> 246) \<or>
     (248 \<le> n \<and> n \<le> 255))"

definition is_word_or_dot :: "char \<Rightarrow> bool" where
  "is_word_or_dot c = (is_word c \<or> c = CHR ''.'')"

text \<open>\<^verbatim>\<open>s.strip()\<close>: whitespace removed at both ends.\<close>

definition strip :: "string \<Rightarrow> string" where
  "strip s = rev (dropWhile is_space (rev (dropWhile is_space s)))"

text \<open>\<^verbatim>\<open>s.split()\<close>: the maximal runs of non-whitespace characters, in order.\<close>

fun split_ws_aux :: "string \<Rightarrow> string \<Rightarrow> string list" where
  "split_ws_aux w [] = (if w = [] then [] else [rev w])"
| "split_ws_aux w (c # cs) =
     (if is_space c then (if w = [] then split_ws_aux [] cs else rev w # split_ws_aux [] cs)
      else split_ws_aux (c # w) cs)"

definition split_ws :: "string \<Rightarrow> string list" where
  "split_ws s = split_ws_aux [] s"

text \<open>\<^verbatim>\<open>s.split(sep)\<close> for a one-character separator: never an empty list.\<close>

fun split_on :: "char \<Rightarrow> string \<Rightarrow> string list" where
  "split_on sep [] = [[]]"
| "split_on sep (c # cs) =
     (if c = sep then [] # split_on sep cs
      else (case split_on sep cs of
              [] \<Rightarrow> [[c]]
            | w # ws \<Rightarrow> (c # w) # ws))"

text \<open>\<^verbatim>\<open>s.startswith(target, index)\<close>, on the part of \<open>s\<close> from \<open>index\<close> on.\<close>

fun startswith :: "string \<Rightarrow> string \<Rightarrow> bool" where
  "startswith [] s = True"
| "startswith (t # ts) [] = False"
| "startswith (t # ts) (c # cs) = (t = c \<and> startswith ts cs)"

text \<open>\<^verbatim>\<open>sep.join(parts)\<close>.\<close>

fun join :: "string \<Rightarrow> string list \<Rightarrow> string" where
  "join sep [] = []"
| "join sep [p] = p"
| "join sep (p # q # ps) = p @ sep @ join sep (q # ps)"

section \<open>Host values\<close>

text \<open>
  The values a data mapping holds: \<^verbatim>\<open>None\<close>, booleans, integers, strings, lists,
  dictionaries with string keys (an association list in insertion order, the first
  binding of a key being the one in force), plain objects, and the class objects that
  the attribute \<^verbatim>\<open>__class__\<close> of these values leads to. A plain object is an
  instance of a user class whose body defines nothing but \<^verbatim>\<open>__init__\<close>; it carries
  the qualified name of its class, its identity (the address the default \<^verbatim>\<open>repr\<close>
  prints) and its instance attributes. \<open>PType\<close> is the class of a built-in value,
  \<open>PClass\<close> the class of a plain object, by its qualified name. Floats, tuples, sets
  and objects with special methods are outside this universe.
\<close>

datatype builtin_type =
  Type_NoneType | Type_bool | Type_int | Type_str | Type_list | Type_dict

datatype pyval =
    PNone
  | PBool bool
  | PInt int
  | PStr string
  | PList "pyval list"
  | PDict "(string \<times> pyval) list"
  | PObj string nat "(string \<times> pyval) list"
  | PType builtin_type
  | PClass string

text \<open>
  The exceptions that can be raised. \<open>Unmodelled\<close> is not an exception: it marks a
  run whose course depends on something outside the universe of values (a bound
  method, an attribute between double underscores, an attribute of a class, a loop
  over the live scope list), and about such a run this theory says nothing.
\<close>

datatype error =
    TemplateError string
  | KeyError string
  | IndexError
  | TypeError
  | AttributeError
  | Unmodelled

subsection \<open>\<^verbatim>\<open>str\<close> and \<^verbatim>\<open>repr\<close>\<close>

definition digit_char :: "nat \<Rightarrow> char" where
  "digit_char d = char_of (d + (if d < 10 then 48 else 87))"

fun digits :: "nat \<Rightarrow> nat \<Rightarrow> string" where
  "digits b n = (if b < 2 \<or> n < b then [digit_char n] else digits b (n div b) @ [digit_char (n mod b)])"

definition int_repr :: "int \<Rightarrow> string" where
  "int_repr i = (if i < 0 then CHR ''-'' # digits 10 (nat (- i)) else digits 10 (nat i))"

definition printable :: "char \<Rightarrow> bool" where
  "printable c = (let n = code_point c in
     \<not> (n < 32 \<or> (127 \<le> n \<and> n \<le> 160) \<or> n = 173))"

definition escape_char :: "char \<Rightarrow> char \<Rightarrow> string" where
  "escape_char quote c =
     (if c = CHR 0x5C then [CHR 0x5C, CHR 0x5C]
      else if c = quote then [CHR 0x5C, quote]
      else if c = CHR 0x09 then [CHR 0x5C, CHR ''t'']
      else if c = CHR 0x0A then [CHR 0x5C, CHR ''n'']
      else if c = CHR 0x0D then [CHR 0x5C, CHR ''r'']
      else if printable c then [c]
      else [CHR 0x5C, CHR ''x'', digit_char (code_point c div 16), digit_char (code_point c mod 16)])"

definition str_repr :: "string \<Rightarrow> string" where
  "str_repr s =
     (let quote = (if CHR 0x27 \<in> set s \<and> CHR 0x22 \<notin> set s then CHR 0x22 else CHR 0x27)
      in [quote] @ concat (map (escape_char quote) s) @ [quote])"

text \<open>
  The keys of a dictionary in iteration order, and its items: a key counts where it
  first occurs.
\<close>

fun dict_items :: "(string \<times> 'a) list \<Rightarrow> (string \<times> 'a) list" where
  "dict_items [] = []"
| "dict_items ((k, v) # d) = (k, v) # dict_items (filter (\<lambda>p. fst p \<noteq> k) d)"

definition dict_keys :: "(string \<times> 'a) list \<Rightarrow> string list" where
  "dict_keys d = map fst (dict_items d)"

fun type_name :: "builtin_type \<Rightarrow> string" where
  "type_name Type_NoneType = ''NoneType''"
| "type_name Type_bool = ''bool''"
| "type_name Type_int = ''int''"
| "type_name Type_str = ''str''"
| "type_name Type_list = ''list''"
| "type_name Type_dict = ''dict''"

definition class_repr :: "string \<Rightarrow> string" where
  "class_repr name = ''<class '' @ [CHR 0x27] @ name @ [CHR 0x27] @ ''>''"

primrec repr :: "pyval \<Rightarrow> string" where
  "repr PNone = ''None''"
| "repr (PBool b) = (if b then ''True'' else ''False'')"
| "repr (PInt i) = int_repr i"
| "repr (PStr s) = str_repr s"
| "repr (PList xs) = ''['' @ join '', '' (map repr xs) @ '']''"
| "repr (PDict d) =
     ''{'' @ join '', '' (map (\<lambda>p. str_repr (fst p) @ '': '' @ snd p)
                              (dict_items (map (map_prod id repr) d))) @ ''}''"
| "repr (PObj cls addr attrs) = ''<'' @ cls @ '' object at 0x'' @ digits 16 addr @ ''>''"
| "repr (PType t) = class_repr (type_name t)"
| "repr (PClass name) = class_repr name"

definition str :: "pyval \<Rightarrow> string" where
  "str v = (case v of PStr s \<Rightarrow> s | _ \<Rightarrow> repr v)"

subsection \<open>Truth value and iteration\<close>

definition truthy :: "pyval \<Rightarrow> bool" where
  "truthy v = (case v of
       PNone \<Rightarrow> False
     | PBool b \<Rightarrow> b
     | PInt i \<Rightarrow> i \<noteq> 0
     | PStr s \<Rightarrow> s \<noteq> []
     | PList xs \<Rightarrow> xs \<noteq> []
     | PDict d \<Rightarrow> d \<noteq> []
     | PObj cls addr attrs \<Rightarrow> True
     | PType t \<Rightarrow> True
     | PClass name \<Rightarrow> True)"

text \<open>
  \<^verbatim>\<open>hasattr(v, '__iter__')\<close>. Strings, lists and dictionaries have the attribute,
  and so do their classes (where it is the method itself); a plain object has it
  when it is among its instance attributes.
\<close>

definition has_iter :: "pyval \<Rightarrow> bool" where
  "has_iter v = (case v of
       PStr s \<Rightarrow> True
     | PList xs \<Rightarrow> True
     | PDict d \<Rightarrow> True
     | PObj cls addr attrs \<Rightarrow> ''__iter__'' \<in> set (map fst attrs)
     | PType t \<Rightarrow> t = Type_str \<or> t = Type_list \<or> t = Type_dict
     | _ \<Rightarrow> False)"

text \<open>
  The items \<^verbatim>\<open>for item in v\<close> enumerates: the one-character strings of a string,
  the elements of a list, the keys of a dictionary. Every other value is not
  iterable, whether it has the attribute \<^verbatim>\<open>__iter__\<close> or not, and the statement
  raises a TypeError.
\<close>

definition iter_items :: "pyval \<Rightarrow> error + pyval list" where
  "iter_items v = (case v of
       PStr s \<Rightarrow> Inr (map (\<lambda>c. PStr [c]) s)
     | PList xs \<Rightarrow> Inr xs
     | PDict d \<Rightarrow> Inr (map PStr (dict_keys d))
     | _ \<Rightarrow> Inl TypeError)"

subsection \<open>Subscription and attribute access\<close>

text \<open>
  What \<^verbatim>\<open>v[key]\<close> or \<^verbatim>\<open>getattr(v, name)\<close> does: it gives a value of the
  universe, or it raises, or the outcome is left open (\<open>Beyond\<close>). The outcome is left
  open where the host may give an object outside the universe, such as a bound
  method, and where what it does depends on the version of the interpreter.
\<close>

datatype access = Got pyval | Raised error | Beyond

text \<open>
  \<^verbatim>\<open>v[key]\<close> for a string key: the binding of the key in a dictionary, a KeyError
  when it has none, a TypeError for every other value that is not a class.
  Subscripting a class gives a host object or raises, depending on the class and the
  version of the interpreter.
\<close>

definition getitem :: "pyval \<Rightarrow> string \<Rightarrow> access" where
  "getitem v key = (case v of
       PDict d \<Rightarrow> (case map_of d key of None \<Rightarrow> Raised (KeyError key) | Some x \<Rightarrow> Got x)
     | PType t \<Rightarrow> Beyond
     | PClass name \<Rightarrow> Beyond
     | _ \<Rightarrow> Raised TypeError)"

text \<open>
  The names between double underscores: the host defines many of them on every
  object, and which ones depends on its version. Apart from \<^verbatim>\<open>__class__\<close> and
  \<^verbatim>\<open>__dict__\<close> the outcome of accessing such a name is left open, whether the
  object has it or not.
\<close>

definition is_dunder :: "string \<Rightarrow> bool" where
  "is_dunder name =
     (4 \<le> length name \<and> take 2 name = ''__'' \<and> drop (length name - 2) name = ''__'')"

text \<open>The methods of the built-in types (CPython 3.8 to 3.13).\<close>

definition int_methods :: "string list" where
  "int_methods = [''as_integer_ratio'', ''bit_count'', ''bit_length'', ''conjugate'',
     ''from_bytes'', ''is_integer'', ''to_bytes'']"

definition str_methods :: "string list" where
  "str_methods = [''capitalize'', ''casefold'', ''center'', ''count'', ''encode'', ''endswith'',
     ''expandtabs'', ''find'', ''format'', ''format_map'', ''index'', ''isalnum'', ''isalpha'',
     ''isascii'', ''isdecimal'', ''isdigit'', ''isidentifier'', ''islower'', ''isnumeric'',
     ''isprintable'', ''isspace'', ''istitle'', ''isupper'', ''join'', ''ljust'', ''lower'',
     ''lstrip'', ''maketrans'', ''partition'', ''removeprefix'', ''removesuffix'', ''replace'',
     ''rfind'', ''rindex'', ''rjust'', ''rpartition'', ''rsplit'', ''rstrip'', ''split'',
     ''splitlines'', ''startswith'', ''strip'', ''swapcase'', ''title'', ''translate'', ''upper'',
     ''zfill'']"

definition list_methods :: "string list" where
  "list_methods = [''append'', ''clear'', ''copy'', ''count'', ''extend'', ''index'', ''insert'',
     ''pop'', ''remove'', ''reverse'', ''sort'']"

definition dict_methods :: "string list" where
  "dict_methods = [''clear'', ''copy'', ''fromkeys'', ''get'', ''items'', ''keys'', ''pop'',
     ''popitem'', ''setdefault'', ''update'', ''values'']"

text \<open>
  An attribute of a value of a built-in type with the given methods: its class, a
  bound method or a name between double underscores (left open), or an
  AttributeError.
\<close>

definition builtin_attr :: "builtin_type \<Rightarrow> string list \<Rightarrow> string \<Rightarrow> access" where
  "builtin_attr t methods name =
     (if name = ''__class__'' then Got (PType t)
      else if is_dunder name \<or> name \<in> set methods then Beyond
      else Raised AttributeError)"

text \<open>An integer (a boolean counts as 0 or 1) also has four numeric attributes.\<close>

definition int_attr :: "builtin_type \<Rightarrow> int \<Rightarrow> string \<Rightarrow> access" where
  "int_attr t i name =
     (if name = ''real'' \<or> name = ''numerator'' then Got (PInt i)
      else if name = ''imag'' then Got (PInt 0)
      else if name = ''denominator'' then Got (PInt 1)
      else builtin_attr t int_methods name)"

text \<open>
  \<^verbatim>\<open>getattr(v, name)\<close>. A plain object has its class, its instance dictionary and
  its instance attributes; its class defines no other name without double underscores.
  The attributes of a class are left open.
\<close>

fun getattr :: "pyval \<Rightarrow> string \<Rightarrow> access" where
  "getattr PNone name = builtin_attr Type_NoneType [] name"
| "getattr (PBool b) name = int_attr Type_bool (if b then 1 else 0) name"
| "getattr (PInt i) name = int_attr Type_int i name"
| "getattr (PStr s) name = builtin_attr Type_str str_methods name"
| "getattr (PList xs) name = builtin_attr Type_list list_methods name"
| "getattr (PDict d) name = builtin_attr Type_dict dict_methods name"
| "getattr (PObj cls addr attrs) name =
     (if name = ''__class__'' then Got (PClass cls)
      else if name = ''__dict__'' then Got (PDict attrs)
      else if is_dunder name then Beyond
      else (case map_of attrs name of None \<Rightarrow> Raised AttributeError | Some x \<Rightarrow> Got x))"
| "getattr (PType t) name = Beyond"
| "getattr (PClass cls) name = Beyond"

section \<open>Context\<close>

text \<open>
  The scope stack is kept as the Python list is: the caller's data first, the most
  recently pushed layer last.
\<close>

record Context =
  stack :: "(string \<times> pyval) list list"

definition Context_init :: "(string \<times> pyval) list \<Rightarrow> Context" where
  "Context_init data_dict = \<lparr>stack = [data_dict]\<rparr>"

definition setitem :: "Context \<Rightarrow> string \<Rightarrow> pyval \<Rightarrow> error + Context" where
  "setitem c key v =
     (if stack c = [] then Inl IndexError
      else Inr (c\<lparr>stack := butlast (stack c) @ [AList.update key v (last (stack c))]\<rparr>))"

fun scan_layers :: "(string \<times> pyval) list list \<Rightarrow> string \<Rightarrow> error + pyval" where
  "scan_layers [] key = Inl (KeyError key)"
| "scan_layers (stack_dict # older) key =
     (case map_of stack_dict key of
        Some v \<Rightarrow> Inr v
      | None \<Rightarrow> scan_layers older key)"

definition Context_getitem :: "Context \<Rightarrow> string \<Rightarrow> error + pyval" where
  "Context_getitem c key = scan_layers (rev (stack c)) key"

text \<open>
  \<^verbatim>\<open>getattr(context, name)\<close>. The context has the instance attribute
  \<^verbatim>\<open>stack\<close>, a list of dictionaries, given here with the layers it holds at the
  time of the access; the methods \<^verbatim>\<open>__setitem__\<close>, \<^verbatim>\<open>__getitem__\<close>,
  \<^verbatim>\<open>push\<close>, \<^verbatim>\<open>pop\<close> and \<^verbatim>\<open>lookup\<close>; and the names between double
  underscores that every object has. Every other name raises an AttributeError.
\<close>

definition Context_getattr :: "Context \<Rightarrow> string \<Rightarrow> access" where
  "Context_getattr c name =
     (if name = ''stack'' then Got (PList (map PDict (stack c)))
      else if name \<in> set [''push'', ''pop'', ''lookup''] \<or> is_dunder name then Beyond
      else Raised AttributeError)"

definition push :: "Context \<Rightarrow> Context" where
  "push c = c\<lparr>stack := stack c @ [[]]\<rparr>"

definition pop :: "Context \<Rightarrow> error + Context" where
  "pop c = (if stack c = [] then Inl IndexError else Inr (c\<lparr>stack := butlast (stack c)\<rparr>))"

text \<open>
  What \<^verbatim>\<open>lookup\<close> returns: a value of the universe (\<^verbatim>\<open>None\<close> when the path
  resolves to nothing); or the scope list of the context itself, with the layers it
  holds at that time (the list is live: a layer pushed later shows in it); or
  \<open>HostObject\<close> when an access on the way is left open, and then what the code
  returns is left open too. \<open>snapshot\<close> is the value a result has when it is
  used at once, as printing it and testing its truth do.
\<close>

datatype looked_up = Value pyval | ScopeList "(string \<times> pyval) list list" | HostObject

primrec snapshot :: "looked_up \<Rightarrow> pyval option" where
  "snapshot (Value v) = Some v"
| "snapshot (ScopeList layers) = Some (PList (map PDict layers))"
| "snapshot HostObject = None"

text \<open>
  \<^verbatim>\<open>lookup\<close>: the loop variable \<open>result\<close> starts as the context itself, so the
  first token is resolved on the context and every later one on a value. A bare
  \<^verbatim>\<open>except\<close> catches whatever the two accesses raise, so \<^verbatim>\<open>lookup\<close> returns and
  never raises. The one attribute of the context that is a value is its scope list:
  when no token is left the result is that list itself, and a further token is
  resolved on it as on any list. \<^verbatim>\<open>keystring.split('.')\<close> has at least one
  element; the case of the empty list is there for the case distinction to be
  complete and is never taken.
\<close>

fun lookup_tokens :: "pyval \<Rightarrow> string list \<Rightarrow> looked_up" where
  "lookup_tokens result [] = Value result"
| "lookup_tokens result (tok # toks) =
     (case getitem result tok of
        Got r \<Rightarrow> lookup_tokens r toks
      | Beyond \<Rightarrow> HostObject
      | Raised e \<Rightarrow>
          (case getattr result tok of
             Got r \<Rightarrow> lookup_tokens r toks
           | Beyond \<Rightarrow> HostObject
           | Raised e' \<Rightarrow> Value PNone))"

definition lookup :: "Context \<Rightarrow> string \<Rightarrow> looked_up" where
  "lookup c keystring =
     (case split_on CHR ''.'' keystring of
        [] \<Rightarrow> Value PNone
      | tok # toks \<Rightarrow>
          (case Context_getitem c tok of
             Inr r \<Rightarrow> lookup_tokens r toks
           | Inl e \<Rightarrow>
               (case Context_getattr c tok of
                  Got r \<Rightarrow> if toks = [] then ScopeList (stack c) else lookup_tokens r toks
                | Beyond \<Rightarrow> HostObject
                | Raised e' \<Rightarrow> Value PNone)))"

section \<open>Tokens and the lexer\<close>

datatype token_type = Text | Print | Instruction

record Token =
  token_type :: token_type
  token_text :: string

text \<open>\<^verbatim>\<open>Token.keyword\<close>: \<^verbatim>\<open>self.text.split()[0]\<close>, an IndexError when there is no word.\<close>

definition keyword :: "Token \<Rightarrow> error + string" where
  "keyword t = (case split_ws (token_text t) of [] \<Rightarrow> Inl IndexError | w # ws \<Rightarrow> Inr w)"

text \<open>
  The lexer is modelled on the part of the template string from \<open>index\<close> on: moving
  the index forward drops characters. \<open>find_closer target s\<close> is the scanning loop the
  three tag readers share, \<^verbatim>\<open>while self.index < len(self.template_string) - 1\<close>: it
  returns the characters passed over and what follows the closing delimiter.
\<close>

fun find_closer :: "string \<Rightarrow> string \<Rightarrow> (string \<times> string) option" where
  "find_closer target [] = None"
| "find_closer target (c # cs) =
     (if cs = [] then None
      else if startswith target (c # cs) then Some ([], drop 2 (c # cs))
      else (case find_closer target cs of
              None \<Rightarrow> None
            | Some (passed, after) \<Rightarrow> Some (c # passed, after)))"

definition read_comment_tag :: "string \<Rightarrow> error + string" where
  "read_comment_tag s =
     (case find_closer ''#}'' (drop 2 s) of
        Some (passed, after) \<Rightarrow> Inr after
      | None \<Rightarrow> Inl (TemplateError ''unclosed comment tag''))"

definition read_print_tag :: "string \<Rightarrow> error + Token \<times> string" where
  "read_print_tag s =
     (case find_closer ''}}'' (drop 2 s) of
        Some (passed, after) \<Rightarrow> Inr (\<lparr>token_type = Print, token_text = strip passed\<rparr>, after)
      | None \<Rightarrow> Inl (TemplateError ''unclosed print tag''))"

definition read_instruction_tag :: "string \<Rightarrow> error + Token \<times> string" where
  "read_instruction_tag s =
     (case find_closer ''%}'' (drop 2 s) of
        Some (passed, after) \<Rightarrow>
          Inr (\<lparr>token_type = Instruction, token_text = strip passed\<rparr>, after)
      | None \<Rightarrow> Inl (TemplateError ''unclosed instruction tag''))"

definition opens_tag :: "string \<Rightarrow> bool" where
  "opens_tag s = (startswith ''{#'' s \<or> startswith ''{{'' s \<or> startswith ''{%'' s)"

fun text_run :: "string \<Rightarrow> string \<times> string" where
  "text_run [] = ([], [])"
| "text_run (c # cs) =
     (if opens_tag (c # cs) then ([], c # cs)
      else (case text_run cs of (passed, after) \<Rightarrow> (c # passed, after)))"

definition read_text :: "string \<Rightarrow> Token \<times> string" where
  "read_text s = (case text_run s of
      (passed, after) \<Rightarrow> (\<lparr>token_type = Text, token_text = passed\<rparr>, after))"

lemma find_closer_shorter:
  "find_closer target s = Some (passed, after) \<Longrightarrow> length after < length s"
  by (induction s arbitrary: passed) (auto split: if_splits option.splits)

lemma text_run_shorter:
  "\<not> opens_tag s \<Longrightarrow> s \<noteq> [] \<Longrightarrow> text_run s = (passed, after) \<Longrightarrow> length after < length s"
proof (induction s arbitrary: passed)
  case Nil
  then show ?case by simp
next
  case (Cons c cs)
  show ?case
  proof (cases "cs = [] \<or> opens_tag cs")
    case True
    with Cons.prems show ?thesis by (cases cs) (auto split: prod.splits)
  next
    case False
    with Cons.prems Cons.IH show ?thesis by (fastforce split: prod.splits)
  qed
qed

function tokenize_from :: "Token list \<Rightarrow> string \<Rightarrow> error + Token list" where
  "tokenize_from tokens s =
     (if s = [] then Inr tokens
      else if startswith ''{#'' s then
        (case read_comment_tag s of
           Inl e \<Rightarrow> Inl e
         | Inr after \<Rightarrow> tokenize_from tokens after)
      else if startswith ''{{'' s then
        (case read_print_tag s of
           Inl e \<Rightarrow> Inl e
         | Inr (t, after) \<Rightarrow> tokenize_from (tokens @ [t]) after)
      else if startswith ''{%'' s then
        (case read_instruction_tag s of
           Inl e \<Rightarrow> Inl e
         | Inr (t, after) \<Rightarrow> tokenize_from (tokens @ [t]) after)
      else
        (case read_text s of
           (t, after) \<Rightarrow> tokenize_from (tokens @ [t]) after))"
  by pat_completeness auto
termination
proof (relation "measure (\<lambda>(tokens, s). length s)")
  show "wf (measure (\<lambda>(tokens, s). length s))" by simp
next
  fix tokens s after
  assume "read_comment_tag s = Inr after"
  then show "((tokens, after), (tokens, s)) \<in> measure (\<lambda>(tokens, s). length s)"
    using find_closer_shorter [of "''#}''" "drop 2 s"]
    by (auto simp: read_comment_tag_def split: option.splits)
next
  fix tokens s x t after
  assume "read_print_tag s = Inr x" "(t, after) = x"
  then show "((tokens @ [t], after), (tokens, s)) \<in> measure (\<lambda>(tokens, s). length s)"
    using find_closer_shorter [of "''}}''" "drop 2 s"]
    by (auto simp: read_print_tag_def split: option.splits)
next
  fix tokens s x t after
  assume "read_instruction_tag s = Inr x" "(t, after) = x"
  then show "((tokens @ [t], after), (tokens, s)) \<in> measure (\<lambda>(tokens, s). length s)"
    using find_closer_shorter [of "''%}''" "drop 2 s"]
    by (auto simp: read_instruction_tag_def split: option.splits)
next
  fix tokens s x t after
  assume "s \<noteq> []" "\<not> startswith ''{#'' s" "\<not> startswith ''{{'' s" "\<not> startswith ''{%'' s"
    "(t, after) = read_text s"
  then show "((tokens @ [t], after), (tokens, s)) \<in> measure (\<lambda>(tokens, s). length s)"
    using text_run_shorter [of s]
    by (auto simp: read_text_def opens_tag_def split: prod.splits)
qed

definition tokenize :: "string \<Rightarrow> error + Token list" where
  "tokenize template_string = tokenize_from [] template_string"

section \<open>Nodes\<close>

text \<open>
  One constructor for each node class, with the fields the class has: \<open>Node\<close> is the
  plain container (the root, and the two branches of an \<open>IfNode\<close>). An \<open>IfNode\<close>
  holds its token, \<open>arg_string\<close>, its children, \<open>true_branch\<close> and \<open>false_branch\<close>;
  a \<open>ForNode\<close> its token, \<open>var_name\<close>, \<open>arg_string\<close> and its children. The
  children list of a \<open>TextNode\<close> or a \<open>PrintNode\<close> is always empty and is left out.
\<close>

datatype node =
    Node "node list"
  | TextNode Token
  | PrintNode Token
  | IfNode Token string "node list" node node
  | ElseNode Token "node list"
  | ForNode Token string string "node list"

fun children :: "node \<Rightarrow> node list" where
  "children (Node cs) = cs"
| "children (TextNode t) = []"
| "children (PrintNode t) = []"
| "children (IfNode t arg_string cs true_branch false_branch) = cs"
| "children (ElseNode t cs) = cs"
| "children (ForNode t var_name arg_string cs) = cs"

text \<open>\<^verbatim>\<open>n.children.append(child)\<close>.\<close>

fun append_child :: "node \<Rightarrow> node \<Rightarrow> node" where
  "append_child (Node cs) child = Node (cs @ [child])"
| "append_child (TextNode t) child = TextNode t"
| "append_child (PrintNode t) child = PrintNode t"
| "append_child (IfNode t arg_string cs true_branch false_branch) child =
     IfNode t arg_string (cs @ [child]) true_branch false_branch"
| "append_child (ElseNode t cs) child = ElseNode t (cs @ [child])"
| "append_child (ForNode t var_name arg_string cs) child =
     ForNode t var_name arg_string (cs @ [child])"

fun is_ElseNode :: "node \<Rightarrow> bool" where
  "is_ElseNode (ElseNode t cs) = True"
| "is_ElseNode n = False"

subsection \<open>The two argument patterns\<close>

text \<open>
  \<^verbatim>\<open>^if\s+([\w.]+)$\<close> and \<^verbatim>\<open>^for\s+(\w+)\s+in\s+([\w.]+)$\<close>, matched from the
  start of the text. The character classes that follow one another are disjoint, so
  each greedy run is the maximal one; \<^verbatim>\<open>$\<close> matches at the end of the text and
  before a newline that ends it. The result is the matched group or groups.
\<close>

definition at_end :: "string \<Rightarrow> bool" where
  "at_end s = (s = [] \<or> s = [CHR 0x0A])"

definition if_regex :: "string \<Rightarrow> string option" where
  "if_regex s =
     (if startswith ''if'' s then
        (let s1 = drop 2 s;
             s2 = dropWhile is_space s1;
             arg = takeWhile is_word_or_dot s2
         in if takeWhile is_space s1 \<noteq> [] \<and> arg \<noteq> [] \<and> at_end (dropWhile is_word_or_dot s2)
            then Some arg else None)
      else None)"

definition for_regex :: "string \<Rightarrow> (string \<times> string) option" where
  "for_regex s =
     (if startswith ''for'' s then
        (let s1 = drop 3 s;
             s2 = dropWhile is_space s1;
             var = takeWhile is_word s2;
             s3 = dropWhile is_word s2;
             s4 = dropWhile is_space s3;
             s5 = drop 2 s4;
             s6 = dropWhile is_space s5;
             arg = takeWhile is_word_or_dot s6
         in if takeWhile is_space s1 \<noteq> [] \<and> var \<noteq> [] \<and> takeWhile is_space s3 \<noteq> [] \<and>
               startswith ''in'' s4 \<and> takeWhile is_space s5 \<noteq> [] \<and> arg \<noteq> [] \<and>
               at_end (dropWhile is_word_or_dot s6)
            then Some (var, arg) else None)
      else None)"

definition IfNode_init :: "Token \<Rightarrow> error + node" where
  "IfNode_init t =
     (case if_regex (token_text t) of
        Some arg_string \<Rightarrow> Inr (IfNode t arg_string [] (Node []) (Node []))
      | None \<Rightarrow> Inl (TemplateError ''malformed {% if %} tag''))"

definition ForNode_init :: "Token \<Rightarrow> error + node" where
  "ForNode_init t =
     (case for_regex (token_text t) of
        Some (var_name, arg_string) \<Rightarrow> Inr (ForNode t var_name arg_string [])
      | None \<Rightarrow> Inl (TemplateError ''malformed {% for %} tag''))"

subsection \<open>Splitting the children of an \<open>IfNode\<close>\<close>

text \<open>
  \<^verbatim>\<open>IfNode.process_children\<close>: the variable \<open>branch\<close> refers to the true branch
  until an \<open>ElseNode\<close> is met and to the false branch from then on; the flag says
  which. Every other class inherits the empty \<^verbatim>\<open>Node.process_children\<close>.
\<close>

fun split_children :: "bool \<Rightarrow> node list \<Rightarrow> node \<Rightarrow> node \<Rightarrow> node \<times> node" where
  "split_children in_false [] true_branch false_branch = (true_branch, false_branch)"
| "split_children in_false (child # cs) true_branch false_branch =
     (if is_ElseNode child then split_children True cs true_branch false_branch
      else if in_false then split_children in_false cs true_branch (append_child false_branch child)
      else split_children in_false cs (append_child true_branch child) false_branch)"

fun process_children :: "node \<Rightarrow> node" where
  "process_children (IfNode t arg_string cs true_branch false_branch) =
     (case split_children False cs true_branch false_branch of
        (tb, fb) \<Rightarrow> IfNode t arg_string cs tb fb)"
| "process_children n = n"

subsection \<open>Rendering\<close>

text \<open>
  Rendering threads the context through: each function returns the text and the
  context it leaves behind, or the exception raised together with the context as it
  is when the exception leaves the function. \<open>render_children\<close> is
  \<^verbatim>\<open>"".join(child.render(context) for child in self.children)\<close>, and
  \<open>render_items\<close> is the loop of \<^verbatim>\<open>ForNode.render\<close> over the items of the
  collection, building the list \<open>output\<close>. Where what \<^verbatim>\<open>lookup\<close> returns is left
  open the result is \<open>Unmodelled\<close>, and so it is for a loop over the scope list of
  the context, which grows by the layer the loop pushes and then holds a dictionary
  that contains itself; the context that comes with \<open>Unmodelled\<close> means nothing.
  \<^verbatim>\<open>ForNode.render\<close> has no \<^verbatim>\<open>try\<close>: an exception raised after \<^verbatim>\<open>push\<close>
  leaves the function with the pushed layer still on the stack.
\<close>

fun render :: "node \<Rightarrow> Context \<Rightarrow> error \<times> Context + string \<times> Context"
  and render_children :: "node list \<Rightarrow> Context \<Rightarrow> error \<times> Context + string \<times> Context"
  and render_items ::
    "string \<Rightarrow> node list \<Rightarrow> pyval list \<Rightarrow> Context \<Rightarrow> error \<times> Context + string list \<times> Context"
where
  "render (Node cs) c = render_children cs c"
| "render (TextNode t) c = Inr (token_text t, c)"
| "render (PrintNode t) c =
     (case snapshot (lookup c (token_text t)) of
        None \<Rightarrow> Inl (Unmodelled, c)
      | Some v \<Rightarrow> if v = PNone then Inr ([], c) else Inr (str v, c))"
| "render (IfNode t arg_string cs true_branch false_branch) c =
     (case snapshot (lookup c arg_string) of
        None \<Rightarrow> Inl (Unmodelled, c)
      | Some v \<Rightarrow> if truthy v then render true_branch c else render false_branch c)"
| "render (ElseNode t cs) c = render_children cs c"
| "render (ForNode t var_name arg_string cs) c =
     (case lookup c arg_string of
        HostObject \<Rightarrow> Inl (Unmodelled, c)
      | ScopeList layers \<Rightarrow> Inl (Unmodelled, c)
      | Value collection \<Rightarrow>
          if has_iter collection then
            (case iter_items collection of
               Inl e \<Rightarrow> Inl (e, push c)
             | Inr items \<Rightarrow>
                 (case render_items var_name cs items (push c) of
                    Inl ec \<Rightarrow> Inl ec
                  | Inr (output, c1) \<Rightarrow>
                      (case pop c1 of
                         Inl e \<Rightarrow> Inl (e, c1)
                       | Inr c2 \<Rightarrow> Inr (concat output, c2))))
          else Inr ([], c))"
| "render_children [] c = Inr ([], c)"
| "render_children (child # cs) c =
     (case render child c of
        Inl ec \<Rightarrow> Inl ec
      | Inr (s, c1) \<Rightarrow>
          (case render_children cs c1 of
             Inl ec \<Rightarrow> Inl ec
           | Inr (s', c2) \<Rightarrow> Inr (s @ s', c2)))"
| "render_items var_name cs [] c = Inr ([], c)"
| "render_items var_name cs (item # items) c =
     (case setitem c var_name item of
        Inl e \<Rightarrow> Inl (e, c)
      | Inr c1 \<Rightarrow>
          (case render_children cs c1 of
             Inl ec \<Rightarrow> Inl ec
           | Inr (s, c2) \<Rightarrow>
               (case render_items var_name cs items c2 of
                  Inl ec \<Rightarrow> Inl ec
                | Inr (output, c3) \<Rightarrow> Inr (s # output, c3))))"

section \<open>The parser\<close>

datatype node_class = IfNode_class | ElseNode_class | ForNode_class

definition Parser_keywords :: "(string \<times> node_class \<times> string option) list" where
  "Parser_keywords =
     [(''if'', (IfNode_class, Some ''endif'')),
      (''else'', (ElseNode_class, None)),
      (''for'', (ForNode_class, Some ''endfor''))]"

definition Parser_endwords :: "string list" where
  "Parser_endwords = [''endif'', ''endfor'']"

text \<open>\<^verbatim>\<open>node_class(token)\<close>: the constructor of the class.\<close>

fun new_node :: "node_class \<Rightarrow> Token \<Rightarrow> error + node" where
  "new_node IfNode_class t = IfNode_init t"
| "new_node ElseNode_class t = Inr (ElseNode t [])"
| "new_node ForNode_class t = ForNode_init t"

text \<open>
  In the Python parser a block node is appended to the children of the node on top of
  the stack and then pushed itself, so the tree and the stack share it and what is
  appended to it later shows in the tree as well. Here the stack holds the open nodes
  as values (the root first, the innermost open block last, as the Python list
  does), and an open block becomes a child of the node below it when its closing tag
  is read. The resulting tree is the same: while a block is open, nothing else is
  appended to the node below it. \<open>append_top\<close> is
  \<^verbatim>\<open>stack[-1].children.append(n)\<close>.
\<close>

definition append_top :: "node list \<Rightarrow> node \<Rightarrow> error + node list" where
  "append_top stk n =
     (if stk = [] then Inl IndexError
      else Inr (butlast stk @ [append_child (last stk) n]))"

fun parse_tokens :: "Token list \<Rightarrow> node list \<Rightarrow> string list \<Rightarrow> error + node" where
  "parse_tokens [] stk expecting =
     (if expecting \<noteq> [] then Inl (TemplateError (''expecting '' @ last expecting))
      else if stk = [] then Inl IndexError
      else Inr (last stk))"
| "parse_tokens (t # ts) stk expecting =
     (if token_type t = Text then
        (case append_top stk (TextNode t) of
           Inl e \<Rightarrow> Inl e
         | Inr stk1 \<Rightarrow> parse_tokens ts stk1 expecting)
      else if token_type t = Print then
        (case append_top stk (PrintNode t) of
           Inl e \<Rightarrow> Inl e
         | Inr stk1 \<Rightarrow> parse_tokens ts stk1 expecting)
      else
        (case keyword t of
           Inl e \<Rightarrow> Inl e
         | Inr kw \<Rightarrow>
             (case map_of Parser_keywords kw of
                Some (cls, endword) \<Rightarrow>
                  (case new_node cls t of
                     Inl e \<Rightarrow> Inl e
                   | Inr n \<Rightarrow>
                       (case endword of
                          None \<Rightarrow>
                            (case append_top stk n of
                               Inl e \<Rightarrow> Inl e
                             | Inr stk1 \<Rightarrow> parse_tokens ts stk1 expecting)
                        | Some w \<Rightarrow>
                            (if stk = [] then Inl IndexError
                             else parse_tokens ts (stk @ [n]) (expecting @ [w]))))
              | None \<Rightarrow>
                  (if kw \<in> set Parser_endwords then
                     (if expecting = [] then Inl (TemplateError (''unexpected '' @ kw))
                      else if last expecting \<noteq> kw then
                        Inl (TemplateError (''expected '' @ last expecting @ '', found '' @ kw))
                      else
                        (case append_top (butlast stk) (process_children (last stk)) of
                           Inl e \<Rightarrow> Inl e
                         | Inr stk1 \<Rightarrow> parse_tokens ts stk1 (butlast expecting)))
                   else Inl (TemplateError (''illegal instruction '' @ [CHR 0x27] @ kw @ [CHR 0x27]))))))"

definition parse :: "string \<Rightarrow> error + node" where
  "parse template_string =
     (case tokenize template_string of
        Inl e \<Rightarrow> Inl e
      | Inr tokens \<Rightarrow> parse_tokens tokens [Node []] [])"

section \<open>Template\<close>

text \<open>
  \<open>Template_init\<close> gives the \<open>root_node\<close> of the template object, or the error
  its constructor raises; \<open>Template_render\<close> is the method \<open>render\<close> of a template
  with that root.
\<close>

definition Template_init :: "string \<Rightarrow> error + node" where
  "Template_init template_string = parse template_string"

definition Template_render :: "node \<Rightarrow> (string \<times> pyval) list \<Rightarrow> error + string" where
  "Template_render root_node data_dict =
     (case render root_node (Context_init data_dict) of
        Inl (e, c) \<Rightarrow> Inl e
      | Inr (s, c) \<Rightarrow> Inr s)"

text \<open>Compiling a template string and rendering it once.\<close>

definition compile_render :: "string \<Rightarrow> (string \<times> pyval) list \<Rightarrow> error + string" where
  "compile_render template_string data_dict =
     (case Template_init template_string of
        Inl e \<Rightarrow> Inl e
      | Inr root_node \<Rightarrow> Template_render root_node data_dict)"

section \<open>Vocabulary of the specification\<close>

text \<open>\<^verbatim>\<open>sub in s\<close>: the string \<open>sub\<close> occurs in \<open>s\<close>.\<close>

fun contains :: "string \<Rightarrow> string \<Rightarrow> bool" where
  "contains sub [] = (sub = [])"
| "contains sub (c # cs) = (startswith sub (c # cs) \<or> contains sub cs)"

text \<open>A string that contains one of the three opening delimiters.\<close>

definition has_tag_delimiter :: "string \<Rightarrow> bool" where
  "has_tag_delimiter s = (contains ''{#'' s \<or> contains ''{{'' s \<or> contains ''{%'' s)"

subsection \<open>Path resolution as the specification words it\<close>

text \<open>
  Mapping-style access treats the subject as a mapping from names to values: it
  applies to a dictionary and gives the binding of the segment, if there is one; on a
  class what it gives is left open (\<open>HostObject\<close>). Attribute-style access treats
  the subject as an object with named fields, the fields being those the host gives
  the value (\<open>getattr\<close>). Each gives a result or nothing, and a segment is resolved
  by the first, then by the second. The first segment of a path is resolved on the
  context: its mapping-style access scans the layers from the most recently pushed to
  the oldest and takes the first that has the name, and its attribute-style access
  gives the scope list of the context under the name \<^verbatim>\<open>stack\<close>. A later segment is
  resolved on the value of the one before it; once a segment gives nothing the path
  gives nothing, and once the result is left open it stays so.
\<close>

definition mapping_access :: "pyval \<Rightarrow> string \<Rightarrow> looked_up option" where
  "mapping_access subject seg =
     (case subject of
        PDict d \<Rightarrow> map_option Value (map_of d seg)
      | PType t \<Rightarrow> Some HostObject
      | PClass name \<Rightarrow> Some HostObject
      | _ \<Rightarrow> None)"

definition attribute_access :: "pyval \<Rightarrow> string \<Rightarrow> looked_up option" where
  "attribute_access subject seg =
     (case getattr subject seg of
        Got v \<Rightarrow> Some (Value v)
      | Beyond \<Rightarrow> Some HostObject
      | Raised e \<Rightarrow> None)"

definition resolve_segment :: "pyval \<Rightarrow> string \<Rightarrow> looked_up option" where
  "resolve_segment subject seg =
     (case mapping_access subject seg of
        Some r \<Rightarrow> Some r
      | None \<Rightarrow> attribute_access subject seg)"

definition scope_scan :: "Context \<Rightarrow> string \<Rightarrow> pyval option" where
  "scope_scan c name =
     (case filter (\<lambda>layer. name \<in> set (map fst layer)) (rev (stack c)) of
        [] \<Rightarrow> None
      | layer # older \<Rightarrow> map_of layer name)"

definition context_attribute :: "Context \<Rightarrow> string \<Rightarrow> looked_up option" where
  "context_attribute c seg =
     (case Context_getattr c seg of
        Got v \<Rightarrow> Some (ScopeList (stack c))
      | Beyond \<Rightarrow> Some HostObject
      | Raised e \<Rightarrow> None)"

definition resolve_first :: "Context \<Rightarrow> string \<Rightarrow> looked_up option" where
  "resolve_first c seg =
     (case scope_scan c seg of
        Some v \<Rightarrow> Some (Value v)
      | None \<Rightarrow> context_attribute c seg)"

fun resolve_rest :: "looked_up option \<Rightarrow> string list \<Rightarrow> looked_up option" where
  "resolve_rest r [] = r"
| "resolve_rest None (seg # segs) = None"
| "resolve_rest (Some r) (seg # segs) =
     (case snapshot r of
        None \<Rightarrow> Some HostObject
      | Some v \<Rightarrow> resolve_rest (resolve_segment v seg) segs)"

definition resolve_path :: "Context \<Rightarrow> string \<Rightarrow> looked_up option" where
  "resolve_path c path =
     (case split_on CHR ''.'' path of
        [] \<Rightarrow> None
      | seg # segs \<Rightarrow> resolve_rest (resolve_first c seg) segs)"

subsection \<open>The finalized tree\<close>

text \<open>
  A tree is finalized when the two branches of every \<open>IfNode\<close> in it are container
  nodes that hold its children up to the first \<open>ElseNode\<close> and its children after
  that \<open>ElseNode\<close> with every further \<open>ElseNode\<close> left out, and an \<open>ElseNode\<close>
  has no children.
\<close>

fun finalized :: "node \<Rightarrow> bool" where
  "finalized (Node cs) = (\<forall>n \<in> set cs. finalized n)"
| "finalized (TextNode t) = True"
| "finalized (PrintNode t) = True"
| "finalized (IfNode t arg_string cs true_branch false_branch) =
     ((\<forall>n \<in> set cs. finalized n) \<and>
      true_branch = Node (takeWhile (\<lambda>n. \<not> is_ElseNode n) cs) \<and>
      false_branch = Node (filter (\<lambda>n. \<not> is_ElseNode n) (dropWhile (\<lambda>n. \<not> is_ElseNode n) cs)))"
| "finalized (ElseNode t cs) = (cs = [])"
| "finalized (ForNode t var_name arg_string cs) = (\<forall>n \<in> set cs. finalized n)"


text \<open>
  The invariant of the parser: the stack is the root container followed by the
  blocks still open, one for each expected closing keyword; what has been appended
  so far is finalized, and the branches of an open \<open>IfNode\<close> are still empty.
\<close>

fun open_block :: "node \<Rightarrow> bool" where
  "open_block (IfNode t arg_string cs true_branch false_branch) =
     ((\<forall>n \<in> set cs. finalized n) \<and> true_branch = Node [] \<and> false_branch = Node [])"
| "open_block (ForNode t var_name arg_string cs) = (\<forall>n \<in> set cs. finalized n)"
| "open_block n = False"

definition parser_inv :: "node list \<Rightarrow> string list \<Rightarrow> bool" where
  "parser_inv stk expecting =
     (\<exists>cs opens. stk = Node cs # opens \<and> (\<forall>n \<in> set cs. finalized n) \<and>
        (\<forall>n \<in> set opens. open_block n) \<and> length opens = length expecting)"


subsection \<open>The argument grammars as the specification words them\<close>

text \<open>
  An identifier is a non-empty run of word characters; a dotted path is one or more
  identifiers joined by dots.
\<close>

definition is_identifier :: "string \<Rightarrow> bool" where
  "is_identifier s = (s \<noteq> [] \<and> list_all is_word s)"

definition dotted_path :: "string \<Rightarrow> bool" where
  "dotted_path s = list_all is_identifier (split_on CHR ''.'' s)"


subsection \<open>The error taxonomy\<close>

text \<open>
  The code raises one exception class, \<^verbatim>\<open>TemplateError\<close>, with a message; the
  kinds of error the specification names are told apart by the message.
\<close>

definition UnclosedTag :: "string \<Rightarrow> error" where
  "UnclosedTag kind = TemplateError (''unclosed '' @ kind @ '' tag'')"

definition MalformedTag :: "string \<Rightarrow> error" where
  "MalformedTag kw = TemplateError (''malformed {% '' @ kw @ '' %} tag'')"

definition UnknownInstruction :: "string \<Rightarrow> error" where
  "UnknownInstruction kw = TemplateError (''illegal instruction '' @ [CHR 0x27] @ kw @ [CHR 0x27])"

definition UnexpectedClose :: "string \<Rightarrow> error" where
  "UnexpectedClose kw = TemplateError (''unexpected '' @ kw)"

definition MismatchedClose :: "string \<Rightarrow> string \<Rightarrow> error" where
  "MismatchedClose expected found = TemplateError (''expected '' @ expected @ '', found '' @ found)"

definition UnclosedBlock :: "string \<Rightarrow> error" where
  "UnclosedBlock kw = TemplateError (''expecting '' @ kw)"

section \<open>Properties of the lexer\<close>

declare tokenize_from.simps [simp del]

lemma split_on_not_Nil: "split_on sep s \<noteq> []"
  by (induction s) (auto split: list.splits)

lemma startswith_iff: "startswith t s \<longleftrightarrow> (\<exists>v. s = t @ v)"
  by (induction t s rule: startswith.induct) auto

lemma contains_iff: "contains sub s \<longleftrightarrow> (\<exists>u v. s = u @ sub @ v)"
proof (induction s)
  case Nil
  then show ?case by auto
next
  case (Cons c cs)
  show ?case
  proof
    assume "contains sub (c # cs)"
    then consider "startswith sub (c # cs)" | "contains sub cs" by auto
    then show "\<exists>u v. c # cs = u @ sub @ v"
    proof cases
      case 1
      then obtain v where "c # cs = sub @ v" by (auto simp: startswith_iff)
      then have "c # cs = [] @ sub @ v" by simp
      then show ?thesis by blast
    next
      case 2
      with Cons.IH obtain u v where "cs = u @ sub @ v" by blast
      then have "c # cs = (c # u) @ sub @ v" by simp
      then show ?thesis by blast
    qed
  next
    assume "\<exists>u v. c # cs = u @ sub @ v"
    then obtain u v where e: "c # cs = u @ sub @ v" by blast
    show "contains sub (c # cs)"
    proof (cases u)
      case Nil
      with e have "startswith sub (c # cs)" by (auto simp: startswith_iff)
      then show ?thesis by simp
    next
      case (Cons a u')
      with e have "cs = u' @ sub @ v" by simp
      with Cons.IH have "contains sub cs" by blast
      then show ?thesis by simp
    qed
  qed
qed

lemma text_run_plain: "\<not> has_tag_delimiter s \<Longrightarrow> text_run s = (s, [])"
  by (induction s) (auto simp: has_tag_delimiter_def opens_tag_def)

lemma tokenize_plain:
  assumes "\<not> has_tag_delimiter s"
  shows "tokenize s = Inr (if s = [] then [] else [\<lparr>token_type = Text, token_text = s\<rparr>])"
proof (cases s)
  case Nil
  then show ?thesis by (simp add: tokenize_def tokenize_from.simps)
next
  case (Cons c cs)
  from assms have n: "\<not> startswith ''{#'' s" "\<not> startswith ''{{'' s" "\<not> startswith ''{%'' s"
    unfolding has_tag_delimiter_def Cons by auto
  have ne: "s \<noteq> []" using Cons by simp
  have r: "read_text s = (\<lparr>token_type = Text, token_text = s\<rparr>, [])"
    using text_run_plain[OF assms] by (simp add: read_text_def)
  have e: "tokenize_from [\<lparr>token_type = Text, token_text = s\<rparr>] [] =
             Inr [\<lparr>token_type = Text, token_text = s\<rparr>]"
    by (subst tokenize_from.simps) simp
  have "tokenize_from [] s = Inr [\<lparr>token_type = Text, token_text = s\<rparr>]"
    by (subst tokenize_from.simps) (simp add: n r e ne)
  then show ?thesis by (simp add: tokenize_def ne)
qed

text \<open>
  Claim C9. A string that contains none of the delimiters \<^verbatim>\<open>{#\<close>, \<^verbatim>\<open>{{\<close> and
  \<^verbatim>\<open>{%\<close> compiles, and rendering the compiled template against any data mapping
  gives the string back unchanged.
\<close>

theorem plain_text_identity:
  assumes "\<not> has_tag_delimiter s"
  shows "(\<exists>root_node. Template_init s = Inr root_node \<and>
            Template_render root_node data_dict = Inr s) \<and>
         compile_render s data_dict = Inr s"
  using tokenize_plain[OF assms]
  by (auto simp: compile_render_def Template_init_def Template_render_def parse_def
      append_top_def)

theorem plain_text_identity_witness:
  "\<not> has_tag_delimiter ''no tags'' \<and>
   compile_render ''no tags'' [(''number'', PInt 123)] = Inr ''no tags''"
proof -
  have h: "\<not> has_tag_delimiter ''no tags''" by (simp add: has_tag_delimiter_def)
  show ?thesis using h plain_text_identity[OF h, of "[(''number'', PInt 123)]"] by simp
qed

section \<open>Properties of the parser\<close>

text \<open>
  Claim C7, at the empty instruction: the text between the delimiters of \<^verbatim>\<open>{% %}\<close>
  is empty once stripped, \<^verbatim>\<open>Token.keyword\<close> finds no word in it, and the
  constructor of the template ends with an IndexError, which is not a TemplateError.
\<close>

theorem empty_instruction_IndexError:
  "Template_init ''{% %}'' = Inl IndexError"
  by code_simp

text \<open>
  Every instruction token with a keyword outside the five recognized ones ends
  parsing with UnknownInstruction; a token has no keyword exactly when its text is
  empty or all whitespace.
\<close>

lemma parse_tokens_unknown:
  assumes "token_type t = Instruction" "keyword t = Inr kw"
    "kw \<notin> {''if'', ''else'', ''for'', ''endif'', ''endfor''}"
  shows "parse_tokens (t # ts) stk expecting = Inl (UnknownInstruction kw)"
proof -
  have "map_of Parser_keywords kw = None" "kw \<notin> set Parser_endwords"
    using assms(3) by (auto simp: Parser_keywords_def Parser_endwords_def)
  then show ?thesis using assms(1,2) by (simp add: UnknownInstruction_def)
qed

lemma split_ws_aux_Nil: "split_ws_aux w s = [] \<longleftrightarrow> w = [] \<and> list_all is_space s"
proof (induction s arbitrary: w)
  case Nil
  then show ?case by simp
next
  case (Cons c cs)
  then show ?case by (cases "is_space c") auto
qed

lemma keyword_empty: "keyword t = Inl IndexError \<longleftrightarrow> list_all is_space (token_text t)"
  using split_ws_aux_Nil[of "[]" "token_text t"]
  by (cases "split_ws_aux [] (token_text t)") (simp_all add: keyword_def split_ws_def)

section \<open>Properties of rendering\<close>




lemma render_items_pieces:
  assumes "layer = [] \<or> layer = [(var_name, x)]"
    "list_all2 (\<lambda>item s. render_children cs \<lparr>stack = base @ [[(var_name, item)]]\<rparr> =
                                Inr (s, \<lparr>stack = base @ [[(var_name, item)]]\<rparr>)) items outs"
  shows "render_items var_name cs items \<lparr>stack = base @ [layer]\<rparr> =
           Inr (outs, \<lparr>stack = base @ [if items = [] then layer else [(var_name, last items)]]\<rparr>)"
  using assms(2,1)
proof (induction arbitrary: layer x rule: list_all2_induct)
  case Nil
  then show ?case by simp
next
  case (Cons item items s outs)
  let ?c1 = "\<lparr>stack = base @ [[(var_name, item)]]\<rparr>"
  have s1: "setitem \<lparr>stack = base @ [layer]\<rparr> var_name item = Inr ?c1"
    using Cons.prems by (auto simp: setitem_def)
  from Cons.IH[of "[(var_name, item)]" item] have
    "render_items var_name cs items ?c1 =
       Inr (outs, \<lparr>stack = base @ [if items = [] then [(var_name, item)] else [(var_name, last items)]]\<rparr>)"
    by simp
  with s1 Cons.hyps(1) show ?case by auto
qed

lemma render_ForNode_pieces:
  assumes "lookup c arg_string = Value coll" "has_iter coll" "iter_items coll = Inr items"
    "list_all2 (\<lambda>item s. render_children cs (c\<lparr>stack := stack c @ [[(var_name, item)]]\<rparr>) =
                            Inr (s, c\<lparr>stack := stack c @ [[(var_name, item)]]\<rparr>)) items outs"
  shows "render (ForNode t var_name arg_string cs) c = Inr (concat outs, c)"
proof -
  have p: "push c = \<lparr>stack = stack c @ [[]]\<rparr>" by (simp add: push_def)
  have u: "\<And>item. c\<lparr>stack := stack c @ [[(var_name, item)]]\<rparr> = \<lparr>stack = stack c @ [[(var_name, item)]]\<rparr>"
    by simp
  have "render_items var_name cs items (push c) =
          Inr (outs, \<lparr>stack = stack c @ [if items = [] then [] else [(var_name, last items)]]\<rparr>)"
    unfolding p using render_items_pieces[of "[]" var_name undefined cs "stack c" items outs] assms(4)
    unfolding u by simp
  then show ?thesis using assms(1-3) by (simp add: pop_def)
qed


lemma list_all2_fun: "list_all2 (\<lambda>x y. y = f x) xs ys \<Longrightarrow> ys = map f xs"
  by (induction rule: list_all2_induct) auto

lemma list_all2_map_fun: "list_all2 (\<lambda>x y. y = f x) xs (map f xs)"
  by (induction xs) auto

lemma parse_for_print:
  "parse ''{% for v in L %}{{v}}{% endfor %}'' =
     Inr (Node [ForNode \<lparr>token_type = Instruction, token_text = ''for v in L''\<rparr> ''v'' ''L''
                  [PrintNode \<lparr>token_type = Print, token_text = ''v''\<rparr>]])"
  by code_simp

lemma render_print_v:
  "render_children [PrintNode \<lparr>token_type = Print, token_text = ''v''\<rparr>]
       \<lparr>stack = base @ [[(''v'', item)]]\<rparr> =
     Inr (if item = PNone then [] else str item, \<lparr>stack = base @ [[(''v'', item)]]\<rparr>)"
  by (simp add: lookup_def Context_getitem_def)

lemma for_print_items:
  assumes "map_of data_dict ''L'' = Some coll" "has_iter coll" "iter_items coll = Inr items"
  shows "compile_render ''{% for v in L %}{{v}}{% endfor %}'' data_dict =
           Inr (concat (map (\<lambda>v. if v = PNone then [] else str v) items))"
proof -
  let ?c = "Context_init data_dict"
  have lk: "lookup ?c ''L'' = Value coll"
    using assms(1) by (simp add: lookup_def Context_getitem_def Context_init_def)
  have "list_all2 (\<lambda>item s. s = (if item = PNone then [] else str item)) items
          (map (\<lambda>v. if v = PNone then [] else str v) items)"
    by (rule list_all2_map_fun)
  then have "list_all2 (\<lambda>item s. render_children [PrintNode \<lparr>token_type = Print, token_text = ''v''\<rparr>]
                 (?c\<lparr>stack := stack ?c @ [[(''v'', item)]]\<rparr>) =
               Inr (s, ?c\<lparr>stack := stack ?c @ [[(''v'', item)]]\<rparr>)) items
          (map (\<lambda>v. if v = PNone then [] else str v) items)"
    by (rule list_all2_mono)
      (use render_print_v[of "[data_dict]"] in \<open>simp add: Context_init_def del: render.simps render_children.simps\<close>)
  from render_ForNode_pieces[OF lk assms(2,3) this,
      of "\<lparr>token_type = Instruction, token_text = ''for v in L''\<rparr>"]
  show ?thesis
    by (simp add: compile_render_def Template_init_def Template_render_def parse_for_print)
qed

lemma for_print_skipped:
  assumes "map_of data_dict ''L'' = None \<or> (\<exists>v. map_of data_dict ''L'' = Some v \<and> \<not> has_iter v)"
  shows "compile_render ''{% for v in L %}{{v}}{% endfor %}'' data_dict = Inr []"
proof -
  have "\<exists>v. lookup (Context_init data_dict) ''L'' = Value v \<and> \<not> has_iter v"
    using assms
    by (auto simp: lookup_def Context_getitem_def Context_getattr_def Context_init_def
        has_iter_def is_dunder_def)
  then show ?thesis
    by (auto simp: compile_render_def Template_init_def Template_render_def parse_for_print)
qed

declare digits.simps [simp del]

text \<open>
  Claim C3, as amended. Rendering \<^verbatim>\<open>{% for v in L %}{{v}}{% endfor %}\<close> against a
  mapping that binds \<open>L\<close> to a list gives the concatenation, in the order of the
  list, of what the print tag gives for each element: the empty string for an element
  that is \<^verbatim>\<open>None\<close>, \<open>str\<close> of the element otherwise. So a list without
  \<^verbatim>\<open>None\<close> gives the concatenation of \<open>str\<close> of its elements, the empty list
  gives the empty string, and so do a mapping without \<open>L\<close> and one that binds \<open>L\<close>
  to a value without \<^verbatim>\<open>__iter__\<close>.
\<close>

theorem for_loop_over_list:
  "(map_of data_dict ''L'' = Some (PList xs) \<longrightarrow>
      compile_render ''{% for v in L %}{{v}}{% endfor %}'' data_dict =
        Inr (concat (map (\<lambda>v. if v = PNone then [] else str v) xs))) \<and>
   (map_of data_dict ''L'' = Some (PList xs) \<and> PNone \<notin> set xs \<longrightarrow>
      compile_render ''{% for v in L %}{{v}}{% endfor %}'' data_dict =
        Inr (concat (map str xs))) \<and>
   (PNone \<notin> set [a, b, c] \<longrightarrow>
      compile_render ''{% for v in L %}{{v}}{% endfor %}'' [(''L'', PList [a, b, c])] =
        Inr (str a @ str b @ str c)) \<and>
   (map_of data_dict ''L'' = Some (PList []) \<longrightarrow>
      compile_render ''{% for v in L %}{{v}}{% endfor %}'' data_dict = Inr []) \<and>
   (map_of data_dict ''L'' = None \<longrightarrow>
      compile_render ''{% for v in L %}{{v}}{% endfor %}'' data_dict = Inr []) \<and>
   (map_of data_dict ''L'' = Some x \<and> \<not> has_iter x \<longrightarrow>
      compile_render ''{% for v in L %}{{v}}{% endfor %}'' data_dict = Inr [])"
proof -
  have general: "compile_render ''{% for v in L %}{{v}}{% endfor %}'' d =
        Inr (concat (map (\<lambda>v. if v = PNone then [] else str v) ys))"
    if "map_of d ''L'' = Some (PList ys)" for d ys
    using for_print_items[OF that, of ys] by (simp add: has_iter_def iter_items_def)
  have same: "map (\<lambda>v. if v = PNone then [] else str v) ys = map str ys" if "PNone \<notin> set ys" for ys
    using that by (induction ys) auto
  have three: "compile_render ''{% for v in L %}{{v}}{% endfor %}'' [(''L'', PList [a, b, c])] =
        Inr (str a @ str b @ str c)" if "PNone \<notin> set [a, b, c]"
    using general[of "[(''L'', PList [a, b, c])]" "[a, b, c]"] that by auto
  have skip: "compile_render ''{% for v in L %}{{v}}{% endfor %}'' data_dict = Inr []"
    if "map_of data_dict ''L'' = None \<or> (map_of data_dict ''L'' = Some x \<and> \<not> has_iter x)"
    using for_print_skipped[of data_dict] that by blast
  show ?thesis
  proof (intro conjI impI)
    assume "map_of data_dict ''L'' = Some (PList xs)"
    then show "compile_render ''{% for v in L %}{{v}}{% endfor %}'' data_dict =
        Inr (concat (map (\<lambda>v. if v = PNone then [] else str v) xs))"
      by (rule general)
  next
    assume "map_of data_dict ''L'' = Some (PList xs) \<and> PNone \<notin> set xs"
    then show "compile_render ''{% for v in L %}{{v}}{% endfor %}'' data_dict =
        Inr (concat (map str xs))"
      using general[of data_dict xs] same[of xs] by simp
  next
    assume "PNone \<notin> set [a, b, c]"
    then show "compile_render ''{% for v in L %}{{v}}{% endfor %}'' [(''L'', PList [a, b, c])] =
        Inr (str a @ str b @ str c)"
      by (rule three)
  next
    assume "map_of data_dict ''L'' = Some (PList [])"
    then show "compile_render ''{% for v in L %}{{v}}{% endfor %}'' data_dict = Inr []"
      using general[of data_dict "[]"] by simp
  next
    assume "map_of data_dict ''L'' = None"
    then show "compile_render ''{% for v in L %}{{v}}{% endfor %}'' data_dict = Inr []"
      using skip by blast
  next
    assume "map_of data_dict ''L'' = Some x \<and> \<not> has_iter x"
    then show "compile_render ''{% for v in L %}{{v}}{% endfor %}'' data_dict = Inr []"
      using skip by blast
  qed
qed

theorem for_loop_over_list_witness:
  "compile_render ''{% for v in L %}{{v}}{% endfor %}''
     [(''L'', PList [PStr ''foo'', PStr ''bar'', PStr ''baz''])] = Inr ''foobarbaz''"
  using for_loop_over_list[of "[(''L'', PList [PStr ''foo'', PStr ''bar'', PStr ''baz''])]"
      "[PStr ''foo'', PStr ''bar'', PStr ''baz'']"]
  by (simp add: str_def)

text \<open>
  Claim C3 as stated fails on the list \<^verbatim>\<open>[None]\<close>: the result is the empty string,
  whereas \<open>str\<close> of \<^verbatim>\<open>None\<close> is \<^verbatim>\<open>None\<close>.
\<close>

theorem for_loop_None_element:
  "compile_render ''{% for v in L %}{{v}}{% endfor %}'' [(''L'', PList [PNone])] = Inr [] \<and>
   str PNone = ''None''"
  by code_simp

text \<open>
  Claim C10. A string has \<^verbatim>\<open>__iter__\<close> and enumerates its one-character strings in
  order; the print tag in the body gives each of them back; so rendering
  \<^verbatim>\<open>{% for v in L %}{{v}}{% endfor %}\<close> against a mapping that binds \<open>L\<close> to the
  string \<open>s\<close> gives \<open>s\<close>, which is not the empty string unless \<open>s\<close> is.
\<close>

theorem for_loop_over_string:
  "has_iter (PStr s) \<and>
   iter_items (PStr s) = Inr (map (\<lambda>ch. PStr [ch]) s) \<and>
   render_children [PrintNode \<lparr>token_type = Print, token_text = ''v''\<rparr>]
       \<lparr>stack = [data_dict, [(''v'', PStr [ch])]]\<rparr> =
     Inr ([ch], \<lparr>stack = [data_dict, [(''v'', PStr [ch])]]\<rparr>) \<and>
   (map_of data_dict ''L'' = Some (PStr s) \<longrightarrow>
      compile_render ''{% for v in L %}{{v}}{% endfor %}'' data_dict = Inr s) \<and>
   (map_of data_dict ''L'' = Some (PStr s) \<and> s \<noteq> [] \<longrightarrow>
      compile_render ''{% for v in L %}{{v}}{% endfor %}'' data_dict \<noteq> Inr [])"
proof -
  have c: "concat (map (\<lambda>v. if v = PNone then [] else str v) (map (\<lambda>ch. PStr [ch]) s)) = s"
    by (induction s) (auto simp: str_def)
  have "compile_render ''{% for v in L %}{{v}}{% endfor %}'' data_dict = Inr s"
    if "map_of data_dict ''L'' = Some (PStr s)"
    using for_print_items[OF that, of "map (\<lambda>ch. PStr [ch]) s"] c
    by (simp add: has_iter_def iter_items_def)
  moreover have "render_children [PrintNode \<lparr>token_type = Print, token_text = ''v''\<rparr>]
       \<lparr>stack = [data_dict, [(''v'', PStr [ch])]]\<rparr> =
     Inr ([ch], \<lparr>stack = [data_dict, [(''v'', PStr [ch])]]\<rparr>)"
    using render_print_v[of "[data_dict]" "PStr [ch]"] by (simp add: str_def del: render.simps render_children.simps)
  ultimately show ?thesis by (auto simp: has_iter_def iter_items_def)
qed

theorem for_loop_over_string_witness:
  "compile_render ''{% for v in L %}{{v}}{% endfor %}'' [(''L'', PStr ''barfoo'')] = Inr ''barfoo''"
  using for_loop_over_string[of "''barfoo''" "[(''L'', PStr ''barfoo'')]"]
  by simp

lemma parse_print_a_b:
  "parse ''{{ a.b }}'' = Inr (Node [PrintNode \<lparr>token_type = Print, token_text = ''a.b''\<rparr>])"
  by code_simp

lemma lookup_a_b:
  assumes "map_of data_dict ''a'' = Some (PDict inner)"
  shows "lookup (Context_init data_dict) ''a.b'' =
           Value (case map_of inner ''b'' of Some v \<Rightarrow> v | None \<Rightarrow> PNone)"
  using assms
  by (simp add: lookup_def Context_getitem_def Context_init_def getitem_def builtin_attr_def
      is_dunder_def dict_methods_def split: option.splits)

text \<open>
  Claim C2, as amended. Rendering \<^verbatim>\<open>{{ a.b }}\<close> against a mapping that binds
  \<open>a\<close> to a dictionary gives \<open>str v\<close> when the dictionary binds \<open>b\<close> to a value
  \<open>v\<close> other than \<^verbatim>\<open>None\<close>, and the empty string when it binds \<open>b\<close> to
  \<^verbatim>\<open>None\<close> or does not bind \<open>b\<close>.
\<close>

theorem print_nested_key:
  "(map_of data_dict ''a'' = Some (PDict inner) \<and> map_of inner ''b'' = Some v \<and> v \<noteq> PNone \<longrightarrow>
      compile_render ''{{ a.b }}'' data_dict = Inr (str v)) \<and>
   (map_of data_dict ''a'' = Some (PDict inner) \<and> map_of inner ''b'' = Some PNone \<longrightarrow>
      compile_render ''{{ a.b }}'' data_dict = Inr []) \<and>
   (map_of data_dict ''a'' = Some (PDict inner) \<and> map_of inner ''b'' = None \<longrightarrow>
      compile_render ''{{ a.b }}'' data_dict = Inr []) \<and>
   compile_render ''{{ a.b }}'' [(''a'', PDict [(''b'', v)])] =
      Inr (if v = PNone then [] else str v) \<and>
   compile_render ''{{ a.b }}'' [(''a'', PDict [])] = Inr []"
proof -
  have r: "compile_render ''{{ a.b }}'' d =
      Inr (case map_of i ''b'' of Some v \<Rightarrow> if v = PNone then [] else str v | None \<Rightarrow> [])"
    if "map_of d ''a'' = Some (PDict i)" for d i
    using lookup_a_b[OF that]
    by (simp add: compile_render_def Template_init_def Template_render_def parse_print_a_b
        split: option.splits)
  show ?thesis
    using r[of data_dict inner] r[of "[(''a'', PDict [(''b'', v)])]" "[(''b'', v)]"]
      r[of "[(''a'', PDict [])]" "[]"]
    by auto
qed

theorem print_nested_key_witness:
  "compile_render ''{{ a.b }}'' [(''a'', PDict [(''b'', PInt 123)])] = Inr ''123''"
proof -
  have "str (PInt 123) = ''123''" by code_simp
  then show ?thesis
    using print_nested_key[of "[(''a'', PDict [(''b'', PInt 123)])]" "[(''b'', PInt 123)]" "PInt 123"]
    by simp
qed

text \<open>
  Claim C2 as stated fails at \<^verbatim>\<open>None\<close>: the result for \<^verbatim>\<open>{a: {b: None}}\<close> is the
  empty string, whereas \<open>str\<close> of \<^verbatim>\<open>None\<close> is \<^verbatim>\<open>None\<close>.
\<close>

theorem print_nested_None:
  "compile_render ''{{ a.b }}'' [(''a'', PDict [(''b'', PNone)])] = Inr [] \<and>
   str PNone = ''None''"
  by code_simp



lemma split_on_no_sep: "sep \<notin> set s \<Longrightarrow> split_on sep s = [s]"
  by (induction s) auto

lemma lookup_tokens_PList:
  "toks \<noteq> [] \<Longrightarrow> lookup_tokens (PList xs) toks = lookup_tokens (PList ys) toks"
  by (cases toks) (auto simp: getitem_def)

lemma Context_getitem_pushed:
  "Context_getitem (c\<lparr>stack := stack c @ [layer]\<rparr>) key =
     (case map_of layer key of Some v \<Rightarrow> Inr v | None \<Rightarrow> Context_getitem c key)"
  by (simp add: Context_getitem_def split: option.splits)

lemma lookup_pushed:
  assumes "map_of layer (hd (split_on CHR ''.'' path)) = None"
  shows "lookup (c\<lparr>stack := stack c @ [layer]\<rparr>) path =
           (case lookup c path of ScopeList layers \<Rightarrow> ScopeList (layers @ [layer]) | r \<Rightarrow> r)"
proof (cases "split_on CHR ''.'' path")
  case Nil
  then show ?thesis by (simp add: split_on_not_Nil)
next
  case (Cons tok toks)
  with assms have m: "map_of layer tok = None" by simp
  show ?thesis
  proof (cases "Context_getitem c tok")
    case (Inr r)
    show ?thesis
    proof (cases "lookup_tokens r toks")
      case (ScopeList layers)
      have "\<And>v ts. lookup_tokens v ts \<noteq> ScopeList layers"
      proof -
        fix v ts show "lookup_tokens v ts \<noteq> ScopeList layers"
          by (induction ts arbitrary: v) (auto split: access.splits)
      qed
      with ScopeList show ?thesis by blast
    qed (use Cons m Inr in \<open>simp_all add: lookup_def Context_getitem_pushed\<close>)
  next
    case (Inl e)
    show ?thesis
    proof (cases "toks = []")
      case True
      with Cons m Inl show ?thesis
        by (simp add: lookup_def Context_getitem_pushed Context_getattr_def)
    next
      case False
      have nsl: "\<And>v layers. lookup_tokens v toks \<noteq> ScopeList layers"
      proof -
        fix v layers show "lookup_tokens v toks \<noteq> ScopeList layers"
          by (induction toks arbitrary: v) (auto split: access.splits)
      qed
      have "lookup_tokens (PList (map PDict (stack c) @ [PDict layer])) toks =
            lookup_tokens (PList (map PDict (stack c))) toks"
        using False by (rule lookup_tokens_PList)
      with Cons m Inl False nsl show ?thesis
        by (auto simp: lookup_def Context_getitem_pushed Context_getattr_def split: looked_up.splits)
    qed
  qed
qed




section \<open>Properties of lookup\<close>

lemma resolve_rest_None: "resolve_rest None segs = None"
  by (cases segs) auto

lemma resolve_rest_HostObject: "resolve_rest (Some HostObject) segs = Some HostObject"
  by (cases segs) auto

lemma lookup_tokens_resolve:
  "lookup_tokens v segs =
     (case resolve_rest (Some (Value v)) segs of Some r \<Rightarrow> r | None \<Rightarrow> Value PNone)"
proof (induction segs arbitrary: v)
  case Nil
  then show ?case by simp
next
  case (Cons seg segs)
  show ?case
  proof (cases "getitem v seg")
    case (Got x)
    then have "resolve_segment v seg = Some (Value x)"
      by (auto simp: resolve_segment_def mapping_access_def getitem_def
          split: pyval.splits option.splits)
    with Got Cons.IH[of x] show ?thesis by simp
  next
    case Beyond
    then have "resolve_segment v seg = Some HostObject"
      by (auto simp: resolve_segment_def mapping_access_def getitem_def
          split: pyval.splits option.splits)
    with Beyond show ?thesis by (simp add: resolve_rest_HostObject)
  next
    case (Raised e)
    then have m: "mapping_access v seg = None"
      by (auto simp: mapping_access_def getitem_def split: pyval.splits option.splits)
    show ?thesis
    proof (cases "getattr v seg")
      case (Got x)
      with m have "resolve_segment v seg = Some (Value x)"
        by (simp add: resolve_segment_def attribute_access_def)
      with Raised Got Cons.IH[of x] show ?thesis by simp
    next
      case Beyond
      with m have "resolve_segment v seg = Some HostObject"
        by (simp add: resolve_segment_def attribute_access_def)
      with Raised Beyond show ?thesis by (simp add: resolve_rest_HostObject)
    next
      case (Raised e')
      with m have "resolve_segment v seg = None"
        by (simp add: resolve_segment_def attribute_access_def)
      with \<open>getitem v seg = Raised e\<close> Raised show ?thesis by (simp add: resolve_rest_None)
    qed
  qed
qed

lemma scan_layers_filter:
  "scan_layers layers key =
     (case (case filter (\<lambda>layer. key \<in> set (map fst layer)) layers of
              [] \<Rightarrow> None
            | layer # older \<Rightarrow> map_of layer key) of
        None \<Rightarrow> Inl (KeyError key)
      | Some v \<Rightarrow> Inr v)"
proof (induction layers)
  case Nil
  then show ?case by simp
next
  case (Cons layer layers)
  show ?case
  proof (cases "map_of layer key")
    case None
    then have "key \<notin> set (map fst layer)" by (simp add: map_of_eq_None_iff)
    with None Cons.IH show ?thesis by simp
  next
    case (Some v)
    then have "key \<in> set (map fst layer)" by (metis map_of_eq_None_iff option.distinct(1) set_map)
    with Some show ?thesis by simp
  qed
qed

lemma Context_getitem_scope_scan:
  "Context_getitem c key = (case scope_scan c key of None \<Rightarrow> Inl (KeyError key) | Some v \<Rightarrow> Inr v)"
  by (simp add: Context_getitem_def scope_scan_def scan_layers_filter)

text \<open>
  Claim C1. For every context and every path, \<open>lookup\<close> returns what resolving the
  path as the specification words it gives, and \<^verbatim>\<open>None\<close> when that is nothing:
  the path is split on the dot, the first segment is resolved on the scope stack from
  the most recently pushed layer to the oldest and then as an attribute of the
  context, and each later segment on the value before it, by mapping-style and then
  attribute-style access. \<open>lookup\<close> is a total function: whatever the two accesses
  raise is caught. For a name without a dot, a layer pushed last that has the name
  decides, and one that does not have it leaves the answer to the layers below, the
  scope list showing the pushed layer.
\<close>

theorem lookup_resolves_path:
  "lookup c path = (case resolve_path c path of Some r \<Rightarrow> r | None \<Rightarrow> Value PNone) \<and>
   (CHR ''.'' \<notin> set name \<and> map_of layer name = Some v \<longrightarrow>
      lookup (c\<lparr>stack := stack c @ [layer]\<rparr>) name = Value v) \<and>
   (CHR ''.'' \<notin> set name \<and> map_of layer name = None \<longrightarrow>
      lookup (c\<lparr>stack := stack c @ [layer]\<rparr>) name =
        (case lookup c name of ScopeList layers \<Rightarrow> ScopeList (layers @ [layer]) | r \<Rightarrow> r))"
proof (intro conjI impI)
  show "lookup c path = (case resolve_path c path of Some r \<Rightarrow> r | None \<Rightarrow> Value PNone)"
  proof (cases "split_on CHR ''.'' path")
    case Nil
    then show ?thesis by (simp add: split_on_not_Nil)
  next
    case (Cons seg segs)
    show ?thesis
    proof (cases "scope_scan c seg")
      case None
      show ?thesis
      proof (cases "Context_getattr c seg")
        case (Got x)
        then have x: "x = PList (map PDict (stack c))"
          by (auto simp: Context_getattr_def split: if_splits)
        show ?thesis
        proof (cases segs)
          case Nil
          with Cons None Got show ?thesis
            by (simp add: lookup_def resolve_path_def resolve_first_def context_attribute_def
                Context_getitem_scope_scan)
        next
          case (Cons seg' segs')
          with \<open>split_on CHR ''.'' path = seg # segs\<close> None Got x show ?thesis
            using lookup_tokens_resolve[of x segs]
            by (simp add: lookup_def resolve_path_def resolve_first_def context_attribute_def
                Context_getitem_scope_scan)
        qed
      next
        case Beyond
        with Cons None show ?thesis
          by (simp add: lookup_def resolve_path_def resolve_first_def context_attribute_def
              Context_getitem_scope_scan resolve_rest_HostObject)
      next
        case (Raised e)
        with Cons None show ?thesis
          by (simp add: lookup_def resolve_path_def resolve_first_def context_attribute_def
              Context_getitem_scope_scan resolve_rest_None)
      qed
    next
      case (Some x)
      with Cons show ?thesis
        by (simp add: lookup_def resolve_path_def resolve_first_def Context_getitem_scope_scan
            lookup_tokens_resolve)
    qed
  qed
next
  assume "CHR ''.'' \<notin> set name \<and> map_of layer name = Some v"
  then show "lookup (c\<lparr>stack := stack c @ [layer]\<rparr>) name = Value v"
    by (simp add: lookup_def split_on_no_sep Context_getitem_def)
next
  assume "CHR ''.'' \<notin> set name \<and> map_of layer name = None"
  then show "lookup (c\<lparr>stack := stack c @ [layer]\<rparr>) name =
        (case lookup c name of ScopeList layers \<Rightarrow> ScopeList (layers @ [layer]) | r \<Rightarrow> r)"
    by (intro lookup_pushed) (simp add: split_on_no_sep)
qed

theorem lookup_resolves_path_witness:
  "lookup \<lparr>stack = [[(''x'', PInt 1), (''object'', PObj ''test.TestObject'' 1 [(''attribute'', PDict [(''k'', PStr ''foobar'')])])], [(''x'', PInt 2)]]\<rparr>
      ''object.attribute.k'' = Value (PStr ''foobar'') \<and>
   lookup \<lparr>stack = [[(''x'', PInt 1)], [(''x'', PInt 2)]]\<rparr> ''x'' = Value (PInt 2) \<and>
   lookup \<lparr>stack = [[(''x'', PInt 1)], [(''y'', PInt 2)]]\<rparr> ''x'' = Value (PInt 1) \<and>
   lookup \<lparr>stack = [[(''x'', PInt 1)], [(''y'', PInt 2)]]\<rparr> ''x.real'' = Value (PInt 1) \<and>
   lookup \<lparr>stack = [[(''x'', PInt 1)], [(''y'', PInt 2)]]\<rparr> ''x.missing'' = Value PNone \<and>
   lookup \<lparr>stack = [[(''x'', PInt 1)], [(''y'', PInt 2)]]\<rparr> ''stack'' =
     ScopeList [[(''x'', PInt 1)], [(''y'', PInt 2)]]"
proof -
  let ?c = "\<lparr>stack = [[(''x'', PInt 1)]]\<rparr>"
  let ?d = "\<lparr>stack = [[(''x'', PInt 1)], [(''y'', PInt 2)]]\<rparr>"
  have r1: "resolve_path \<lparr>stack = [[(''x'', PInt 1), (''object'', PObj ''test.TestObject'' 1 [(''attribute'', PDict [(''k'', PStr ''foobar'')])])], [(''x'', PInt 2)]]\<rparr>
      ''object.attribute.k'' = Some (Value (PStr ''foobar''))"
    by code_simp
  have r2: "resolve_path ?d ''x.real'' = Some (Value (PInt 1))" by code_simp
  have r3: "resolve_path ?d ''x.missing'' = None" by code_simp
  have r4: "resolve_path ?c ''x'' = Some (Value (PInt 1))" by code_simp
  have r5: "resolve_path ?c ''stack'' = Some (ScopeList [[(''x'', PInt 1)]])" by code_simp
  have d: "CHR ''.'' \<notin> set ''x''" "CHR ''.'' \<notin> set ''stack''" by simp_all
  have m: "map_of [(''x'', PInt 2)] ''x'' = Some (PInt 2)" "map_of [(''y'', PInt 2)] ''x'' = None"
    "map_of [(''y'', PInt 2)] ''stack'' = None"
    by simp_all
  have a1: "lookup \<lparr>stack = [[(''x'', PInt 1), (''object'', PObj ''test.TestObject'' 1 [(''attribute'', PDict [(''k'', PStr ''foobar'')])])], [(''x'', PInt 2)]]\<rparr>
      ''object.attribute.k'' = Value (PStr ''foobar'')"
    using r1 lookup_resolves_path[of "\<lparr>stack = [[(''x'', PInt 1), (''object'', PObj ''test.TestObject'' 1 [(''attribute'', PDict [(''k'', PStr ''foobar'')])])], [(''x'', PInt 2)]]\<rparr>" "''object.attribute.k''"]
    by simp
  have a2: "lookup (?c\<lparr>stack := stack ?c @ [[(''x'', PInt 2)]]\<rparr>) ''x'' = Value (PInt 2)"
    using d m lookup_resolves_path[where c = ?c and name = "''x''" and layer = "[(''x'', PInt 2)]"
        and v = "PInt 2"]
    by blast
  have c1: "lookup ?c ''x'' = Value (PInt 1)"
    using r4 lookup_resolves_path[of ?c "''x''"] by simp
  have a3: "lookup (?c\<lparr>stack := stack ?c @ [[(''y'', PInt 2)]]\<rparr>) ''x'' = Value (PInt 1)"
    using d m c1 lookup_resolves_path[where c = ?c and name = "''x''" and layer = "[(''y'', PInt 2)]"]
    by simp
  have a4: "lookup ?d ''x.real'' = Value (PInt 1)"
    using r2 lookup_resolves_path[of ?d "''x.real''"] by simp
  have a5: "lookup ?d ''x.missing'' = Value PNone"
    using r3 lookup_resolves_path[of ?d "''x.missing''"] by simp
  have c2: "lookup ?c ''stack'' = ScopeList [[(''x'', PInt 1)]]"
    using r5 lookup_resolves_path[of ?c "''stack''"] by simp
  have a6: "lookup (?c\<lparr>stack := stack ?c @ [[(''y'', PInt 2)]]\<rparr>) ''stack'' =
      ScopeList [[(''x'', PInt 1)], [(''y'', PInt 2)]]"
    using d m c2 lookup_resolves_path[where c = ?c and name = "''stack''"
        and layer = "[(''y'', PInt 2)]"]
    by simp
  from a1 a2 a3 a4 a5 a6 show ?thesis by simp
qed

text \<open>
  Attributes of host values in templates: the scope list of the context, a key that
  hides a method of the same name, a numeric attribute of an integer, the instance
  dictionary of an object.
\<close>

lemma host_examples:
  "compile_render ''{{ stack }}'' [] = Inr ''[{}]''"
  "compile_render ''{{ a.keys }}|{{ n.real }}|{{ o.__dict__.attribute }}''
     [(''a'', PDict [(''keys'', PStr ''T'')]), (''n'', PInt 5),
      (''o'', PObj ''test.TestObject'' 1 [(''attribute'', PStr ''foobar'')])] = Inr ''T|5|foobar''"
  "compile_render ''{% for v in L %}{{ stack }}{% endfor %}'' [(''L'', PList [PInt 1])] =
     Inr (''[{'' @ [CHR 0x27] @ ''L'' @ [CHR 0x27] @ '': [1]}, {'' @ [CHR 0x27] @ ''v'' @ [CHR 0x27] @ '': 1}]'')"
  by code_simp+


section \<open>Block structure\<close>


lemmas error_defs = UnclosedTag_def MalformedTag_def UnknownInstruction_def
  UnexpectedClose_def MismatchedClose_def UnclosedBlock_def

lemma parse_tokens_close:
  assumes "token_type t = Instruction" "keyword t = Inr kw" "kw \<in> set Parser_endwords"
  shows "parse_tokens (t # ts) stk expecting =
     (if expecting = [] then Inl (UnexpectedClose kw)
      else if last expecting \<noteq> kw then
        Inl (MismatchedClose (last expecting) kw)
      else
        (case append_top (butlast stk) (process_children (last stk)) of
           Inl e \<Rightarrow> Inl e
         | Inr stk1 \<Rightarrow> parse_tokens ts stk1 (butlast expecting)))"
proof -
  have "map_of Parser_keywords kw = None"
    using assms(3) by (auto simp: Parser_keywords_def Parser_endwords_def)
  then show ?thesis using assms by (simp add: error_defs)
qed

text \<open>
  Claim C8. A closing keyword read while nothing is expected ends parsing with
  UnexpectedClose; one that differs from the last expected keyword ends it with
  MismatchedClose; one that matches finalizes the innermost open block, which becomes
  a child of the node below it, and removes it and the expectation; and tokens that
  run out while a keyword is still expected end parsing with UnclosedBlock naming the
  last expected keyword. So \<^verbatim>\<open>{% if a %}\<close> fails with UnclosedBlock,
  \<^verbatim>\<open>{% endif %}\<close> with UnexpectedClose and \<^verbatim>\<open>{% if a %}...{% endfor %}\<close> with
  MismatchedClose.
\<close>

theorem block_balancing:
  "(token_type t = Instruction \<and> keyword t = Inr kw \<and> kw \<in> set Parser_endwords \<longrightarrow>
      parse_tokens (t # ts) stk [] = Inl (UnexpectedClose kw)) \<and>
   (token_type t = Instruction \<and> keyword t = Inr kw \<and> kw \<in> set Parser_endwords \<and> w \<noteq> kw \<longrightarrow>
      parse_tokens (t # ts) stk (expecting @ [w]) =
        Inl (MismatchedClose w kw)) \<and>
   (token_type t = Instruction \<and> keyword t = Inr kw \<and> kw \<in> set Parser_endwords \<longrightarrow>
      parse_tokens (t # ts) (stk @ [below, block]) (expecting @ [kw]) =
        parse_tokens ts (stk @ [append_child below (process_children block)]) expecting) \<and>
   parse_tokens [] stk (expecting @ [w]) = Inl (UnclosedBlock w) \<and>
   Template_init ''{% if a %}'' = Inl (UnclosedBlock ''endif'') \<and>
   Template_init ''{% endif %}'' = Inl (UnexpectedClose ''endif'') \<and>
   Template_init ''{% if a %}...{% endfor %}'' =
     Inl (MismatchedClose ''endif'' ''endfor'')"
proof (intro conjI impI)
  assume "token_type t = Instruction \<and> keyword t = Inr kw \<and> kw \<in> set Parser_endwords"
  then show "parse_tokens (t # ts) stk [] = Inl (UnexpectedClose kw)"
    using parse_tokens_close[of t kw ts stk "[]"] by simp
next
  assume "token_type t = Instruction \<and> keyword t = Inr kw \<and> kw \<in> set Parser_endwords \<and> w \<noteq> kw"
  then show "parse_tokens (t # ts) stk (expecting @ [w]) =
        Inl (MismatchedClose w kw)"
    using parse_tokens_close[of t kw ts stk "expecting @ [w]"] by simp
next
  assume "token_type t = Instruction \<and> keyword t = Inr kw \<and> kw \<in> set Parser_endwords"
  then show "parse_tokens (t # ts) (stk @ [below, block]) (expecting @ [kw]) =
        parse_tokens ts (stk @ [append_child below (process_children block)]) expecting"
    using parse_tokens_close[of t kw ts "stk @ [below, block]" "expecting @ [kw]"]
    by (simp add: append_top_def butlast_append)
next
  show "parse_tokens [] stk (expecting @ [w]) = Inl (UnclosedBlock w)"
    by (simp add: error_defs)
  show "Template_init ''{% if a %}'' = Inl (UnclosedBlock ''endif'')"
    by code_simp
  show "Template_init ''{% endif %}'' = Inl (UnexpectedClose ''endif'')"
    by code_simp
  show "Template_init ''{% if a %}...{% endfor %}'' =
     Inl (MismatchedClose ''endif'' ''endfor'')"
    by code_simp
qed

theorem block_balancing_witness:
  "keyword \<lparr>token_type = Instruction, token_text = ''endfor''\<rparr> = Inr ''endfor'' \<and>
   ''endfor'' \<in> set Parser_endwords \<and>
   parse_tokens [\<lparr>token_type = Instruction, token_text = ''endfor''\<rparr>] [Node []] [] =
     Inl (UnexpectedClose ''endfor'') \<and>
   parse_tokens [\<lparr>token_type = Instruction, token_text = ''endfor''\<rparr>]
       [Node [], ForNode \<lparr>token_type = Instruction, token_text = ''for x in xs''\<rparr> ''x'' ''xs'' []]
       [''endfor''] =
     Inr (Node [ForNode \<lparr>token_type = Instruction, token_text = ''for x in xs''\<rparr> ''x'' ''xs'' []])"
proof -
  have k: "keyword \<lparr>token_type = Instruction, token_text = ''endfor''\<rparr> = Inr ''endfor''"
    by code_simp
  have e: "''endfor'' \<in> set Parser_endwords" by (simp add: Parser_endwords_def)
  show ?thesis
    using k e
      block_balancing[of "\<lparr>token_type = Instruction, token_text = ''endfor''\<rparr>" "''endfor''" "[]" "[Node []]"]
      block_balancing[of "\<lparr>token_type = Instruction, token_text = ''endfor''\<rparr>" "''endfor''" "[]" "[]"
        _ "[]" "Node []" "ForNode \<lparr>token_type = Instruction, token_text = ''for x in xs''\<rparr> ''x'' ''xs'' []"]
    by simp
qed


lemma split_children_in_false:
  "split_children True cs (Node tb) (Node fb) =
     (Node tb, Node (fb @ filter (\<lambda>n. \<not> is_ElseNode n) cs))"
  by (induction cs arbitrary: fb) auto

lemma split_children_in_true:
  "split_children False cs (Node tb) (Node fb) =
     (Node (tb @ takeWhile (\<lambda>n. \<not> is_ElseNode n) cs),
      Node (fb @ filter (\<lambda>n. \<not> is_ElseNode n) (dropWhile (\<lambda>n. \<not> is_ElseNode n) cs)))"
  by (induction cs arbitrary: tb) (auto simp: split_children_in_false)

lemma finalized_process_children: "open_block n \<Longrightarrow> finalized (process_children n)"
  by (cases n) (auto simp: split_children_in_true)

lemma open_block_append_child:
  "open_block n \<Longrightarrow> finalized x \<Longrightarrow> open_block (append_child n x)"
  by (cases n) auto

lemma append_top_inv:
  assumes "parser_inv stk expecting" "finalized x"
  shows "\<exists>stk'. append_top stk x = Inr stk' \<and> parser_inv stk' expecting"
proof -
  from assms(1) obtain cs opens where s: "stk = Node cs # opens"
    and f: "\<forall>n \<in> set cs. finalized n" and ob: "\<forall>n \<in> set opens. open_block n"
    and l: "length opens = length expecting"
    unfolding parser_inv_def by blast
  show ?thesis
  proof (cases opens rule: rev_cases)
    case Nil
    with s f l assms(2) show ?thesis
      by (auto simp: append_top_def parser_inv_def)
  next
    case (snoc inner block)
    then have "append_top stk x = Inr (Node cs # inner @ [append_child block x])"
      using s by (simp add: append_top_def butlast_append)
    moreover have "parser_inv (Node cs # inner @ [append_child block x]) expecting"
      unfolding parser_inv_def
      using snoc f ob l assms(2) open_block_append_child by auto
    ultimately show ?thesis by blast
  qed
qed

lemma open_inv:
  assumes "parser_inv stk expecting" "open_block n"
  shows "parser_inv (stk @ [n]) (expecting @ [w])"
  using assms unfolding parser_inv_def by auto

lemma close_inv:
  assumes "parser_inv stk expecting" "expecting \<noteq> []"
  shows "\<exists>stk'. append_top (butlast stk) (process_children (last stk)) = Inr stk' \<and>
           parser_inv stk' (butlast expecting)"
proof -
  from assms(1) obtain cs opens where s: "stk = Node cs # opens"
    and f: "\<forall>n \<in> set cs. finalized n" and ob: "\<forall>n \<in> set opens. open_block n"
    and l: "length opens = length expecting"
    unfolding parser_inv_def by blast
  from l assms(2) have "opens \<noteq> []" by auto
  then obtain inner block where o: "opens = inner @ [block]"
    by (cases opens rule: rev_cases) auto
  have pi: "parser_inv (Node cs # inner) (butlast expecting)"
    unfolding parser_inv_def using f ob l o by auto
  have fin: "finalized (process_children block)"
    using ob o by (auto intro: finalized_process_children)
  have "butlast stk = Node cs # inner" "last stk = block"
    using s o by (simp_all add: butlast_append)
  with append_top_inv[OF pi fin] show ?thesis by simp
qed

lemma new_node_cases:
  assumes "map_of Parser_keywords kw = Some (cls, endword)" "new_node cls t = Inr n"
  shows "(endword = None \<and> finalized n) \<or> (endword \<noteq> None \<and> open_block n)"
  using assms
  by (auto simp: Parser_keywords_def IfNode_init_def ForNode_init_def
      split: if_splits option.splits)

lemma parse_tokens_finalized:
  "parser_inv stk expecting \<Longrightarrow> parse_tokens ts stk expecting = Inr root_node \<Longrightarrow>
     finalized root_node"
proof (induction ts arbitrary: stk expecting)
  case Nil
  then show ?case by (auto simp: parser_inv_def split: if_splits)
next
  case (Cons t ts)
  show ?case
  proof (cases "token_type t")
    case Text
    from append_top_inv[OF Cons.prems(1), of "TextNode t"] obtain stk' where
      "append_top stk (TextNode t) = Inr stk'" "parser_inv stk' expecting" by auto
    with Cons.prems(2) Cons.IH Text show ?thesis by auto
  next
    case Print
    from append_top_inv[OF Cons.prems(1), of "PrintNode t"] obtain stk' where
      "append_top stk (PrintNode t) = Inr stk'" "parser_inv stk' expecting" by auto
    with Cons.prems(2) Cons.IH Print show ?thesis by auto
  next
    case Instruction
    from Cons.prems(2) Instruction obtain kw where kw: "keyword t = Inr kw"
      by (cases "keyword t") auto
    show ?thesis
    proof (cases "map_of Parser_keywords kw")
      case (Some ce)
      obtain cls endword where ce: "ce = (cls, endword)" by (cases ce)
      from Cons.prems(2) Instruction kw Some ce obtain n where n: "new_node cls t = Inr n"
        by (cases "new_node cls t") auto
      from new_node_cases[OF Some[unfolded ce] n] show ?thesis
      proof
        assume a: "endword = None \<and> finalized n"
        from append_top_inv[OF Cons.prems(1), of n] a obtain stk' where
          "append_top stk n = Inr stk'" "parser_inv stk' expecting" by auto
        with Cons.prems(2) Cons.IH Instruction kw Some ce n a show ?thesis by auto
      next
        assume a: "endword \<noteq> None \<and> open_block n"
        then obtain w where w: "endword = Some w" by auto
        have "stk \<noteq> []" using Cons.prems(1) by (auto simp: parser_inv_def)
        moreover have "parser_inv (stk @ [n]) (expecting @ [w])"
          using open_inv[OF Cons.prems(1)] a by blast
        ultimately show ?thesis
          using Cons.prems(2) Cons.IH Instruction kw Some ce n w by auto
      qed
    next
      case None
      from Cons.prems(2) Instruction kw None have e: "kw \<in> set Parser_endwords"
        "expecting \<noteq> []" "last expecting = kw"
        by (auto split: if_splits)
      from close_inv[OF Cons.prems(1) e(2)] obtain stk' where
        "append_top (butlast stk) (process_children (last stk)) = Inr stk'"
        "parser_inv stk' (butlast expecting)" by blast
      with Cons.prems(2) Cons.IH Instruction kw None e show ?thesis by auto
    qed
  qed
qed

text \<open>
  Claim C5, as amended. The tree of every template that compiles is finalized: every
  \<open>IfNode\<close> in it has a true branch and a false branch that are container nodes, the
  true branch holding its children before the first \<open>ElseNode\<close> and the false branch
  its children after it, further \<open>ElseNode\<close>s left out (all children and an empty
  false branch when there is none). So no \<open>ElseNode\<close> is a member of a branch of an
  \<open>IfNode\<close>.
\<close>

theorem parse_finalizes_conditionals:
  "(Template_init s = Inr root_node \<longrightarrow> finalized root_node) \<and>
   (finalized (IfNode t arg_string cs true_branch false_branch) \<longrightarrow>
      (\<forall>n \<in> set (children true_branch) \<union> set (children false_branch). \<not> is_ElseNode n))"
proof (intro conjI impI)
  assume "Template_init s = Inr root_node"
  then obtain toks where "parse_tokens toks [Node []] [] = Inr root_node"
    by (auto simp: Template_init_def parse_def split: sum.splits)
  moreover have "parser_inv [Node []] []" by (simp add: parser_inv_def)
  ultimately show "finalized root_node" using parse_tokens_finalized by blast
next
  assume "finalized (IfNode t arg_string cs true_branch false_branch)"
  then show "\<forall>n \<in> set (children true_branch) \<union> set (children false_branch). \<not> is_ElseNode n"
    by (auto dest: set_takeWhileD)
qed

theorem parse_finalizes_conditionals_witness:
  "Template_init ''{% if a %}x{% else %}y{% endif %}'' =
     Inr (Node [IfNode \<lparr>token_type = Instruction, token_text = ''if a''\<rparr> ''a''
                  [TextNode \<lparr>token_type = Text, token_text = ''x''\<rparr>,
                   ElseNode \<lparr>token_type = Instruction, token_text = ''else''\<rparr> [],
                   TextNode \<lparr>token_type = Text, token_text = ''y''\<rparr>]
                  (Node [TextNode \<lparr>token_type = Text, token_text = ''x''\<rparr>])
                  (Node [TextNode \<lparr>token_type = Text, token_text = ''y''\<rparr>])]) \<and>
   finalized (Node [IfNode \<lparr>token_type = Instruction, token_text = ''if a''\<rparr> ''a''
                  [TextNode \<lparr>token_type = Text, token_text = ''x''\<rparr>,
                   ElseNode \<lparr>token_type = Instruction, token_text = ''else''\<rparr> [],
                   TextNode \<lparr>token_type = Text, token_text = ''y''\<rparr>]
                  (Node [TextNode \<lparr>token_type = Text, token_text = ''x''\<rparr>])
                  (Node [TextNode \<lparr>token_type = Text, token_text = ''y''\<rparr>])])"
proof -
  have p: "Template_init ''{% if a %}x{% else %}y{% endif %}'' =
     Inr (Node [IfNode \<lparr>token_type = Instruction, token_text = ''if a''\<rparr> ''a''
                  [TextNode \<lparr>token_type = Text, token_text = ''x''\<rparr>,
                   ElseNode \<lparr>token_type = Instruction, token_text = ''else''\<rparr> [],
                   TextNode \<lparr>token_type = Text, token_text = ''y''\<rparr>]
                  (Node [TextNode \<lparr>token_type = Text, token_text = ''x''\<rparr>])
                  (Node [TextNode \<lparr>token_type = Text, token_text = ''y''\<rparr>])])"
    by code_simp
  show ?thesis
    using p parse_finalizes_conditionals[of "''{% if a %}x{% else %}y{% endif %}''"]
    by blast
qed

text \<open>
  Claim C5 as stated fails on \<^verbatim>\<open>{% else %}\<close>: the template compiles, and the root
  of its tree holds an \<open>ElseNode\<close>.
\<close>

theorem else_marker_survives:
  "Template_init ''{% else %}'' =
     Inr (Node [ElseNode \<lparr>token_type = Instruction, token_text = ''else''\<rparr> []]) \<and>
   is_ElseNode (ElseNode \<lparr>token_type = Instruction, token_text = ''else''\<rparr> [])"
  by code_simp

section \<open>The argument grammars\<close>


lemma word_not_space: "is_word c \<Longrightarrow> \<not> is_space c"
  by (auto simp: is_word_def is_space_def Let_def)

lemma word_or_dot_not_space:
  assumes "is_word_or_dot c"
  shows "\<not> is_space c"
proof (cases "c = CHR ''.''")
  case True
  then show ?thesis by (simp add: is_space_def code_point_def)
next
  case False
  with assms have "is_word c" by (simp add: is_word_or_dot_def)
  then show ?thesis by (rule word_not_space)
qed

lemma newline_not_word_or_dot: "\<not> is_word_or_dot (CHR 0x0A)"
  by (simp add: is_word_or_dot_def is_word_def code_point_def)

lemma i_not_space: "\<not> is_space CHR ''i''"
  by (simp add: is_space_def code_point_def)

lemma run_split:
  assumes "list_all P xs" "ys = [] \<or> \<not> P (hd ys)"
  shows "takeWhile P (xs @ ys) = xs" "dropWhile P (xs @ ys) = ys"
proof -
  have a: "\<And>x. x \<in> set xs \<Longrightarrow> P x" using assms(1) by (simp add: list_all_iff)
  have t: "takeWhile P ys = []" and d: "dropWhile P ys = ys"
    using assms(2) by (cases ys; simp)+
  show "takeWhile P (xs @ ys) = xs" using a t by (simp add: takeWhile_append2)
  show "dropWhile P (xs @ ys) = ys" using a d by (simp add: dropWhile_append2)
qed

lemma run_parts:
  "s = takeWhile P s @ dropWhile P s" "list_all P (takeWhile P s)"
  "dropWhile P s = [] \<or> \<not> P (hd (dropWhile P s))"
proof -
  show "s = takeWhile P s @ dropWhile P s" by simp
  show "list_all P (takeWhile P s)" by (auto simp: list_all_iff dest: set_takeWhileD)
  show "dropWhile P s = [] \<or> \<not> P (hd (dropWhile P s))" using hd_dropWhile by blast
qed

lemma at_end_cases: "at_end nl \<Longrightarrow> nl = [] \<or> \<not> is_word_or_dot (hd nl)"
  by (auto simp: at_end_def newline_not_word_or_dot)

lemma if_regex_iff:
  "if_regex s = Some arg \<longleftrightarrow>
     (\<exists>ws nl. s = ''if'' @ ws @ arg @ nl \<and> ws \<noteq> [] \<and> list_all is_space ws \<and>
        arg \<noteq> [] \<and> list_all is_word_or_dot arg \<and> at_end nl)"
proof
  assume a: "if_regex s = Some arg"
  then have st: "startswith ''if'' s" by (auto simp: if_regex_def split: if_splits)
  then obtain s1 where s: "s = ''if'' @ s1" by (auto simp: startswith_iff)
  let ?ws = "takeWhile is_space s1"
  let ?s2 = "dropWhile is_space s1"
  let ?nl = "dropWhile is_word_or_dot ?s2"
  from a s have c: "?ws \<noteq> []" "arg = takeWhile is_word_or_dot ?s2" "arg \<noteq> []" "at_end ?nl"
    by (auto simp: if_regex_def Let_def split: if_splits)
  have "s = ''if'' @ ?ws @ arg @ ?nl" using s c(2) by simp
  moreover have "list_all is_space ?ws" by (rule run_parts(2))
  moreover have "list_all is_word_or_dot arg" unfolding c(2) by (rule run_parts(2))
  ultimately show "\<exists>ws nl. s = ''if'' @ ws @ arg @ nl \<and> ws \<noteq> [] \<and> list_all is_space ws \<and>
        arg \<noteq> [] \<and> list_all is_word_or_dot arg \<and> at_end nl"
    using c by blast
next
  assume "\<exists>ws nl. s = ''if'' @ ws @ arg @ nl \<and> ws \<noteq> [] \<and> list_all is_space ws \<and>
        arg \<noteq> [] \<and> list_all is_word_or_dot arg \<and> at_end nl"
  then obtain ws nl where s: "s = ''if'' @ ws @ arg @ nl" and c: "ws \<noteq> []" "list_all is_space ws"
    "arg \<noteq> []" "list_all is_word_or_dot arg" "at_end nl" by blast
  have h: "\<not> is_space (hd (arg @ nl))"
    using c(3,4) by (cases arg) (auto simp: word_or_dot_not_space)
  have t1: "takeWhile is_space (ws @ arg @ nl) = ws" and d1: "dropWhile is_space (ws @ arg @ nl) = arg @ nl"
    using run_split[OF c(2), of "arg @ nl"] h by auto
  have t2: "takeWhile is_word_or_dot (arg @ nl) = arg" and d2: "dropWhile is_word_or_dot (arg @ nl) = nl"
    using run_split[OF c(4), of nl] at_end_cases[OF c(5)] by auto
  show "if_regex s = Some arg"
    using c by (simp add: if_regex_def s t1 d1 t2 d2)
qed

lemma for_regex_iff:
  "for_regex s = Some (var, arg) \<longleftrightarrow>
     (\<exists>ws1 ws2 ws3 nl. s = ''for'' @ ws1 @ var @ ws2 @ ''in'' @ ws3 @ arg @ nl \<and>
        ws1 \<noteq> [] \<and> list_all is_space ws1 \<and> var \<noteq> [] \<and> list_all is_word var \<and>
        ws2 \<noteq> [] \<and> list_all is_space ws2 \<and> ws3 \<noteq> [] \<and> list_all is_space ws3 \<and>
        arg \<noteq> [] \<and> list_all is_word_or_dot arg \<and> at_end nl)"
proof
  assume a: "for_regex s = Some (var, arg)"
  then have st: "startswith ''for'' s" by (auto simp: for_regex_def split: if_splits)
  then obtain s1 where s: "s = ''for'' @ s1" by (auto simp: startswith_iff)
  let ?ws1 = "takeWhile is_space s1"
  let ?s2 = "dropWhile is_space s1"
  let ?s3 = "dropWhile is_word ?s2"
  let ?ws2 = "takeWhile is_space ?s3"
  let ?s4 = "dropWhile is_space ?s3"
  let ?s5 = "drop 2 ?s4"
  let ?ws3 = "takeWhile is_space ?s5"
  let ?s6 = "dropWhile is_space ?s5"
  let ?nl = "dropWhile is_word_or_dot ?s6"
  from a s have c: "?ws1 \<noteq> []" "var = takeWhile is_word ?s2" "var \<noteq> []" "?ws2 \<noteq> []"
    "startswith ''in'' ?s4" "?ws3 \<noteq> []" "arg = takeWhile is_word_or_dot ?s6" "arg \<noteq> []" "at_end ?nl"
    by (auto simp: for_regex_def Let_def split: if_splits)
  from c(5) have s4: "?s4 = ''in'' @ ?s5" by (auto simp: startswith_iff)
  have "s1 = ?ws1 @ ?s2" by simp
  also have "?s2 = var @ ?s3" using c(2) by simp
  also have "?s3 = ?ws2 @ ?s4" by simp
  also have "?s4 = ''in'' @ ?s5" by (rule s4)
  also have "?s5 = ?ws3 @ ?s6" by simp
  also have "?s6 = arg @ ?nl" using c(7) by simp
  finally have "s = ''for'' @ ?ws1 @ var @ ?ws2 @ ''in'' @ ?ws3 @ arg @ ?nl" using s by simp
  moreover have "list_all is_space ?ws1" "list_all is_space ?ws2" "list_all is_space ?ws3"
    by (rule run_parts(2))+
  moreover have "list_all is_word var" unfolding c(2) by (rule run_parts(2))
  moreover have "list_all is_word_or_dot arg" unfolding c(7) by (rule run_parts(2))
  ultimately show "\<exists>ws1 ws2 ws3 nl. s = ''for'' @ ws1 @ var @ ws2 @ ''in'' @ ws3 @ arg @ nl \<and>
        ws1 \<noteq> [] \<and> list_all is_space ws1 \<and> var \<noteq> [] \<and> list_all is_word var \<and>
        ws2 \<noteq> [] \<and> list_all is_space ws2 \<and> ws3 \<noteq> [] \<and> list_all is_space ws3 \<and>
        arg \<noteq> [] \<and> list_all is_word_or_dot arg \<and> at_end nl"
    using c by blast
next
  assume "\<exists>ws1 ws2 ws3 nl. s = ''for'' @ ws1 @ var @ ws2 @ ''in'' @ ws3 @ arg @ nl \<and>
        ws1 \<noteq> [] \<and> list_all is_space ws1 \<and> var \<noteq> [] \<and> list_all is_word var \<and>
        ws2 \<noteq> [] \<and> list_all is_space ws2 \<and> ws3 \<noteq> [] \<and> list_all is_space ws3 \<and>
        arg \<noteq> [] \<and> list_all is_word_or_dot arg \<and> at_end nl"
  then obtain ws1 ws2 ws3 nl where s: "s = ''for'' @ ws1 @ var @ ws2 @ ''in'' @ ws3 @ arg @ nl"
    and c: "ws1 \<noteq> []" "list_all is_space ws1" "var \<noteq> []" "list_all is_word var"
      "ws2 \<noteq> []" "list_all is_space ws2" "ws3 \<noteq> []" "list_all is_space ws3"
      "arg \<noteq> []" "list_all is_word_or_dot arg" "at_end nl"
    by blast
  let ?r6 = "arg @ nl"
  let ?r5 = "ws3 @ ?r6"
  let ?r4 = "''in'' @ ?r5"
  let ?r3 = "ws2 @ ?r4"
  let ?r2 = "var @ ?r3"
  have h1: "\<not> is_space (hd ?r2)" using c(3,4) by (cases var) (auto simp: word_not_space)
  have h2: "\<not> is_word (hd ?r3)" using c(5,6) by (cases ws2) (auto simp: word_not_space)
  have h3: "\<not> is_space (hd ?r4)" by (simp add: i_not_space)
  have h4: "\<not> is_space (hd ?r6)" using c(9,10) by (cases arg) (auto simp: word_or_dot_not_space)
  have e1: "takeWhile is_space (ws1 @ ?r2) = ws1" "dropWhile is_space (ws1 @ ?r2) = ?r2"
    using run_split[OF c(2), of ?r2] h1 by auto
  have e2: "takeWhile is_word ?r2 = var" "dropWhile is_word ?r2 = ?r3"
    using run_split[OF c(4), of ?r3] h2 by auto
  have e3: "takeWhile is_space ?r3 = ws2" "dropWhile is_space ?r3 = ?r4"
    using run_split[OF c(6), of ?r4] h3 by auto
  have e5: "takeWhile is_space ?r5 = ws3" "dropWhile is_space ?r5 = ?r6"
    using run_split[OF c(8), of ?r6] h4 by auto
  have e6: "takeWhile is_word_or_dot ?r6 = arg" "dropWhile is_word_or_dot ?r6 = nl"
    using run_split[OF c(10), of nl] at_end_cases[OF c(11)] by auto
  have d: "drop 3 s = ws1 @ ?r2" using s by simp
  have i: "startswith ''in'' ?r4" "drop 2 ?r4 = ?r5" by simp_all
  show "for_regex s = Some (var, arg)"
    unfolding for_regex_def
    using c(1,3,5,7,9,11)
    by (simp only: d e1 e2 e3 i e5 e6 Let_def) (simp add: s)
qed


lemma strip_last: "strip s = s \<Longrightarrow> s \<noteq> [] \<Longrightarrow> \<not> is_space (last s)"
proof -
  assume a: "strip s = s" and n: "s \<noteq> []"
  let ?d = "dropWhile is_space (rev (dropWhile is_space s))"
  from a have s: "s = rev ?d" by (simp add: strip_def)
  with n have "?d \<noteq> []" by (metis rev.simps(1))
  then have "\<not> is_space (hd ?d)" using hd_dropWhile by blast
  moreover have "last s = hd ?d" using s \<open>?d \<noteq> []\<close> by (metis last_rev)
  ultimately show ?thesis by simp
qed

lemma newline_is_space: "is_space (CHR 0x0A)"
  by (simp add: is_space_def code_point_def)

lemma stripped_at_end:
  assumes "strip (pre @ arg @ nl) = pre @ arg @ nl" "at_end nl"
  shows "nl = []"
proof (rule ccontr)
  assume "nl \<noteq> []"
  with assms(2) have nl: "nl = [CHR 0x0A]" by (simp add: at_end_def)
  then have "last (pre @ arg @ nl) = CHR 0x0A" by simp
  moreover have "\<not> is_space (last (pre @ arg @ nl))"
    using strip_last[OF assms(1)] nl by simp
  ultimately show False using newline_is_space by simp
qed

lemma split_on_chars: "set s \<subseteq> insert sep (\<Union>(set ` set (split_on sep s)))"
proof (induction s)
  case Nil
  then show ?case by simp
next
  case (Cons c cs)
  then show ?case by (cases "split_on sep cs") (auto split: if_splits)
qed

lemma dotted_path_chars:
  assumes "dotted_path arg"
  shows "arg \<noteq> []" "list_all is_word_or_dot arg"
proof -
  from assms have a: "\<forall>seg \<in> set (split_on CHR ''.'' arg). seg \<noteq> [] \<and> (\<forall>ch \<in> set seg. is_word ch)"
    by (simp add: dotted_path_def is_identifier_def list_all_iff)
  show "arg \<noteq> []"
  proof
    assume "arg = []"
    with a show False by simp
  qed
  have "\<forall>ch \<in> set arg. is_word_or_dot ch"
  proof
    fix ch assume "ch \<in> set arg"
    with split_on_chars[of arg "CHR ''.''"]
    have "ch = CHR ''.'' \<or> (\<exists>seg \<in> set (split_on CHR ''.'' arg). ch \<in> set seg)" by auto
    with a show "is_word_or_dot ch" by (auto simp: is_word_or_dot_def)
  qed
  then show "list_all is_word_or_dot arg" by (simp add: list_all_iff)
qed

lemma space_is_space: "list_all is_space '' ''"
  by (simp add: is_space_def code_point_def)

lemma if_regex_dotted: "dotted_path arg \<Longrightarrow> if_regex (''if '' @ arg) = Some arg"
proof -
  assume d: "dotted_path arg"
  have "''if '' @ arg = ''if'' @ '' '' @ arg @ []" by simp
  then show ?thesis
    unfolding if_regex_iff using dotted_path_chars[OF d] space_is_space
    by (metis at_end_def list.distinct(1))
qed

lemma for_regex_dotted:
  assumes "is_identifier var" "dotted_path arg"
  shows "for_regex (''for '' @ var @ '' in '' @ arg) = Some (var, arg)"
proof -
  have "''for '' @ var @ '' in '' @ arg = ''for'' @ '' '' @ var @ '' '' @ ''in'' @ '' '' @ arg @ []"
    by simp
  moreover have "var \<noteq> []" "list_all is_word var" using assms(1) by (simp_all add: is_identifier_def)
  moreover have "at_end []" by (simp add: at_end_def)
  moreover have "'' '' \<noteq> []" by simp
  ultimately show ?thesis
    unfolding for_regex_iff using dotted_path_chars[OF assms(2)] space_is_space
    by blast
qed


lemma dropWhile_fixed: "xs = [] \<or> \<not> P (hd xs) \<Longrightarrow> dropWhile P xs = xs"
  by (cases xs) auto

lemma strip_idem: "strip (strip s) = strip s"
proof -
  define u where "u = dropWhile is_space s"
  define d where "d = dropWhile is_space (rev u)"
  define v where "v = rev d"
  have sv: "strip s = v" by (simp add: strip_def u_def d_def v_def)
  have hd_d: "d = [] \<or> \<not> is_space (hd d)" unfolding d_def using hd_dropWhile by blast
  have hd_u: "u = [] \<or> \<not> is_space (hd u)" unfolding u_def using hd_dropWhile by blast
  have "rev u = takeWhile is_space (rev u) @ d" unfolding d_def by simp
  then have "rev (rev u) = rev (takeWhile is_space (rev u) @ d)" by simp
  then have uv: "u = v @ rev (takeWhile is_space (rev u))" unfolding v_def by simp
  have hd_v: "v = [] \<or> \<not> is_space (hd v)"
  proof (cases "v = []")
    case True
    then show ?thesis by simp
  next
    case False
    with uv have "hd u = hd v" "u \<noteq> []" by (metis hd_append2, metis append_is_Nil_conv)
    with hd_u show ?thesis by simp
  qed
  have 1: "dropWhile is_space v = v" using hd_v by (rule dropWhile_fixed)
  have "rev v = d" unfolding v_def by simp
  then have 2: "dropWhile is_space (rev v) = rev v" using hd_d by (simp add: dropWhile_fixed)
  have "strip v = v" unfolding strip_def 1 2 by simp
  with sv show ?thesis by simp
qed

lemma instruction_token_stripped:
  "read_instruction_tag s = Inr (t, after) \<Longrightarrow> strip (token_text t) = token_text t"
  by (auto simp: read_instruction_tag_def strip_idem split: option.splits)

lemma parse_tokens_malformed:
  assumes "token_type t = Instruction" "keyword t = Inr kw"
    "map_of Parser_keywords kw = Some (cls, endword)" "new_node cls t = Inl e"
  shows "parse_tokens (t # ts) stk expecting = Inl e"
  using assms by simp

text \<open>
  Claim C6, as amended. The constructor of an \<open>IfNode\<close> succeeds exactly when the text
  of the token is \<^verbatim>\<open>if\<close>, one or more whitespace characters and a non-empty run of
  word characters and dots (followed by nothing, or by one newline, which the text of
  a token that the lexer stripped never has), and fails with MalformedTag otherwise;
  the constructor of a \<open>ForNode\<close> succeeds exactly when the text is \<^verbatim>\<open>for\<close>,
  whitespace, a non-empty run of word characters, whitespace, \<^verbatim>\<open>in\<close>, whitespace and
  a non-empty run of word characters and dots, and fails with MalformedTag otherwise.
  A dotted path is such a run, so \<^verbatim>\<open>if <dotted-path>\<close> and
  \<^verbatim>\<open>for <identifier> in <dotted-path>\<close> are accepted. In the parser, an instruction
  token with the keyword \<^verbatim>\<open>if\<close> or \<^verbatim>\<open>for\<close> whose text does not match ends parsing
  with MalformedTag.
\<close>

theorem argument_grammars:
  "(IfNode_init t = Inr n \<longleftrightarrow>
      (\<exists>ws arg nl. token_text t = ''if'' @ ws @ arg @ nl \<and> ws \<noteq> [] \<and> list_all is_space ws \<and>
         arg \<noteq> [] \<and> list_all is_word_or_dot arg \<and> at_end nl \<and>
         n = IfNode t arg [] (Node []) (Node []))) \<and>
   ((\<exists>n'. IfNode_init t = Inr n') \<or> IfNode_init t = Inl (MalformedTag ''if'')) \<and>
   (ForNode_init t = Inr n \<longleftrightarrow>
      (\<exists>ws1 var ws2 ws3 arg nl.
         token_text t = ''for'' @ ws1 @ var @ ws2 @ ''in'' @ ws3 @ arg @ nl \<and>
         ws1 \<noteq> [] \<and> list_all is_space ws1 \<and> var \<noteq> [] \<and> list_all is_word var \<and>
         ws2 \<noteq> [] \<and> list_all is_space ws2 \<and> ws3 \<noteq> [] \<and> list_all is_space ws3 \<and>
         arg \<noteq> [] \<and> list_all is_word_or_dot arg \<and> at_end nl \<and>
         n = ForNode t var arg [])) \<and>
   ((\<exists>n'. ForNode_init t = Inr n') \<or> ForNode_init t = Inl (MalformedTag ''for'')) \<and>
   (strip (token_text t) = token_text t \<and> token_text t = pre @ arg @ nl \<and> at_end nl \<longrightarrow> nl = []) \<and>
   (dotted_path arg \<longrightarrow>
      IfNode_init \<lparr>token_type = Instruction, token_text = ''if '' @ arg\<rparr> =
        Inr (IfNode \<lparr>token_type = Instruction, token_text = ''if '' @ arg\<rparr> arg [] (Node []) (Node []))) \<and>
   (is_identifier var \<and> dotted_path arg \<longrightarrow>
      ForNode_init \<lparr>token_type = Instruction, token_text = ''for '' @ var @ '' in '' @ arg\<rparr> =
        Inr (ForNode \<lparr>token_type = Instruction, token_text = ''for '' @ var @ '' in '' @ arg\<rparr>
               var arg [])) \<and>
   (token_type t = Instruction \<and> keyword t = Inr ''if'' \<and> if_regex (token_text t) = None \<longrightarrow>
      parse_tokens (t # ts) stk expecting = Inl (MalformedTag ''if'')) \<and>
   (token_type t = Instruction \<and> keyword t = Inr ''for'' \<and> for_regex (token_text t) = None \<longrightarrow>
      parse_tokens (t # ts) stk expecting = Inl (MalformedTag ''for''))"
proof (intro conjI impI)
  show "IfNode_init t = Inr n \<longleftrightarrow>
      (\<exists>ws arg nl. token_text t = ''if'' @ ws @ arg @ nl \<and> ws \<noteq> [] \<and> list_all is_space ws \<and>
         arg \<noteq> [] \<and> list_all is_word_or_dot arg \<and> at_end nl \<and>
         n = IfNode t arg [] (Node []) (Node []))"
  proof
    assume "IfNode_init t = Inr n"
    then obtain arg where "if_regex (token_text t) = Some arg" "n = IfNode t arg [] (Node []) (Node [])"
      by (auto simp: IfNode_init_def split: option.splits)
    then show "\<exists>ws arg nl. token_text t = ''if'' @ ws @ arg @ nl \<and> ws \<noteq> [] \<and> list_all is_space ws \<and>
         arg \<noteq> [] \<and> list_all is_word_or_dot arg \<and> at_end nl \<and>
         n = IfNode t arg [] (Node []) (Node [])"
      unfolding if_regex_iff by blast
  next
    assume "\<exists>ws arg nl. token_text t = ''if'' @ ws @ arg @ nl \<and> ws \<noteq> [] \<and> list_all is_space ws \<and>
         arg \<noteq> [] \<and> list_all is_word_or_dot arg \<and> at_end nl \<and>
         n = IfNode t arg [] (Node []) (Node [])"
    then obtain arg where "if_regex (token_text t) = Some arg" "n = IfNode t arg [] (Node []) (Node [])"
      unfolding if_regex_iff by blast
    then show "IfNode_init t = Inr n" by (simp add: IfNode_init_def)
  qed
  show "(\<exists>n'. IfNode_init t = Inr n') \<or> IfNode_init t = Inl (MalformedTag ''if'')"
    by (simp add: IfNode_init_def MalformedTag_def split: option.splits)
  show "ForNode_init t = Inr n \<longleftrightarrow>
      (\<exists>ws1 var ws2 ws3 arg nl.
         token_text t = ''for'' @ ws1 @ var @ ws2 @ ''in'' @ ws3 @ arg @ nl \<and>
         ws1 \<noteq> [] \<and> list_all is_space ws1 \<and> var \<noteq> [] \<and> list_all is_word var \<and>
         ws2 \<noteq> [] \<and> list_all is_space ws2 \<and> ws3 \<noteq> [] \<and> list_all is_space ws3 \<and>
         arg \<noteq> [] \<and> list_all is_word_or_dot arg \<and> at_end nl \<and>
         n = ForNode t var arg [])"
  proof
    assume "ForNode_init t = Inr n"
    then obtain var arg where "for_regex (token_text t) = Some (var, arg)" "n = ForNode t var arg []"
      by (auto simp: ForNode_init_def split: option.splits)
    then show "\<exists>ws1 var ws2 ws3 arg nl.
         token_text t = ''for'' @ ws1 @ var @ ws2 @ ''in'' @ ws3 @ arg @ nl \<and>
         ws1 \<noteq> [] \<and> list_all is_space ws1 \<and> var \<noteq> [] \<and> list_all is_word var \<and>
         ws2 \<noteq> [] \<and> list_all is_space ws2 \<and> ws3 \<noteq> [] \<and> list_all is_space ws3 \<and>
         arg \<noteq> [] \<and> list_all is_word_or_dot arg \<and> at_end nl \<and>
         n = ForNode t var arg []"
      unfolding for_regex_iff by blast
  next
    assume "\<exists>ws1 var ws2 ws3 arg nl.
         token_text t = ''for'' @ ws1 @ var @ ws2 @ ''in'' @ ws3 @ arg @ nl \<and>
         ws1 \<noteq> [] \<and> list_all is_space ws1 \<and> var \<noteq> [] \<and> list_all is_word var \<and>
         ws2 \<noteq> [] \<and> list_all is_space ws2 \<and> ws3 \<noteq> [] \<and> list_all is_space ws3 \<and>
         arg \<noteq> [] \<and> list_all is_word_or_dot arg \<and> at_end nl \<and>
         n = ForNode t var arg []"
    then obtain var arg where "for_regex (token_text t) = Some (var, arg)" "n = ForNode t var arg []"
      unfolding for_regex_iff by blast
    then show "ForNode_init t = Inr n" by (simp add: ForNode_init_def)
  qed
  show "(\<exists>n'. ForNode_init t = Inr n') \<or> ForNode_init t = Inl (MalformedTag ''for'')"
    by (simp add: ForNode_init_def MalformedTag_def split: option.splits)
next
  assume "strip (token_text t) = token_text t \<and> token_text t = pre @ arg @ nl \<and> at_end nl"
  then show "nl = []" by (metis stripped_at_end)
next
  assume "dotted_path arg"
  then show "IfNode_init \<lparr>token_type = Instruction, token_text = ''if '' @ arg\<rparr> =
        Inr (IfNode \<lparr>token_type = Instruction, token_text = ''if '' @ arg\<rparr> arg [] (Node []) (Node []))"
    using if_regex_dotted[of arg] by (simp add: IfNode_init_def)
next
  assume "is_identifier var \<and> dotted_path arg"
  then show "ForNode_init \<lparr>token_type = Instruction, token_text = ''for '' @ var @ '' in '' @ arg\<rparr> =
        Inr (ForNode \<lparr>token_type = Instruction, token_text = ''for '' @ var @ '' in '' @ arg\<rparr>
               var arg [])"
    using for_regex_dotted[of var arg] by (simp add: ForNode_init_def)
next
  assume "token_type t = Instruction \<and> keyword t = Inr ''if'' \<and> if_regex (token_text t) = None"
  then show "parse_tokens (t # ts) stk expecting = Inl (MalformedTag ''if'')"
    using parse_tokens_malformed[of t "''if''" IfNode_class "Some ''endif''" "MalformedTag ''if''"]
    by (simp add: Parser_keywords_def IfNode_init_def MalformedTag_def)
next
  assume "token_type t = Instruction \<and> keyword t = Inr ''for'' \<and> for_regex (token_text t) = None"
  then show "parse_tokens (t # ts) stk expecting = Inl (MalformedTag ''for'')"
    using parse_tokens_malformed[of t "''for''" ForNode_class "Some ''endfor''" "MalformedTag ''for''"]
    by (simp add: Parser_keywords_def ForNode_init_def MalformedTag_def)
qed

theorem argument_grammars_witness:
  "dotted_path ''user.active'' \<and> is_identifier ''item'' \<and>
   IfNode_init \<lparr>token_type = Instruction, token_text = ''if user.active''\<rparr> =
     Inr (IfNode \<lparr>token_type = Instruction, token_text = ''if user.active''\<rparr> ''user.active'' []
            (Node []) (Node [])) \<and>
   ForNode_init \<lparr>token_type = Instruction, token_text = ''for item in user.active''\<rparr> =
     Inr (ForNode \<lparr>token_type = Instruction, token_text = ''for item in user.active''\<rparr>
            ''item'' ''user.active'' []) \<and>
   parse_tokens [\<lparr>token_type = Instruction, token_text = ''if a b''\<rparr>] [Node []] [] =
     Inl (MalformedTag ''if'')"
proof -
  have d: "dotted_path ''user.active''" by code_simp
  have i: "is_identifier ''item''" by code_simp
  have k: "keyword \<lparr>token_type = Instruction, token_text = ''if a b''\<rparr> = Inr ''if''" by code_simp
  have r: "if_regex ''if a b'' = None" by code_simp
  show ?thesis
    using d i k r
      argument_grammars[where arg = "''user.active''" and var = "''item''"]
      argument_grammars[where t = "\<lparr>token_type = Instruction, token_text = ''if a b''\<rparr>"
        and ts = "[]" and stk = "[Node []]" and expecting = "[]"]
    by simp
qed

text \<open>
  Claim C6 as stated fails on \<^verbatim>\<open>{% if . %}{% endif %}\<close> and on
  \<^verbatim>\<open>{% for x in a..b %}{% endfor %}\<close>: both compile, and neither \<^verbatim>\<open>.\<close> nor
  \<^verbatim>\<open>a..b\<close> is a dotted path.
\<close>

theorem empty_segments_accepted:
  "Template_init ''{% if . %}{% endif %}'' =
     Inr (Node [IfNode \<lparr>token_type = Instruction, token_text = ''if .''\<rparr> ''.'' []
                  (Node []) (Node [])]) \<and>
   \<not> dotted_path ''.'' \<and>
   Template_init ''{% for x in a..b %}{% endfor %}'' =
     Inr (Node [ForNode \<lparr>token_type = Instruction, token_text = ''for x in a..b''\<rparr> ''x'' ''a..b'' []]) \<and>
   \<not> dotted_path ''a..b''"
  by code_simp

end
